theory Spec2Isabelle
  imports Complex_Main
begin

section \<open>Conventions of the embedding\<close>

text \<open>
  The development embeds the Gridworld MDP of \<^verbatim>\<open>src/environment.py\<close> (with the constants
  of \<^verbatim>\<open>src/config.py\<close>), the dynamic-programming solver of \<^verbatim>\<open>src/solver.py\<close> and the
  branch selection of the two renderers of \<^verbatim>\<open>src/visualization.py\<close>.

  \<^item> Python floats are modelled as exact reals: rounding is not modelled, so every
    statement about a numeric value is a statement about the exact value of the
    expression the code evaluates. Which branch a comparison of two computed numbers takes
    can differ between the two; no theorem about the exit of a loop is claimed for doubles.
  \<^item> A Python exception is a value of type \<open>error\<close>, and a function that can raise returns
    \<open>error + 'a\<close> with \<open>Inl\<close> for the exception.
  \<^item> A \<^verbatim>\<open>dict\<close> whose order of insertion is observable (\<^verbatim>\<open>consolidated\<close>, \<^verbatim>\<open>q_values\<close>)
    is an association list maintained by \<open>dict_set\<close>; the utility and policy tables, which
    are only read by key, are maps.
  \<^item> A Python \<^verbatim>\<open>set\<close> that is iterated (\<^verbatim>\<open>states\<close>) is a list of its elements. Python fixes
    the order of iteration by hashing; the model lists the elements in order of insertion.
    The theorems about the solver hold for every list of states, and the one evaluation of
    the solver on the grid is shown for every order. A set that is only tested for
    membership is a HOL set.
  \<^item> A \<^verbatim>\<open>while True\<close> loop is a \<open>partial_function\<close> in the option monad: \<open>None\<close> is
    "does not return".
\<close>

datatype error = KeyError | TypeError | AttributeError

subsection \<open>Insertion-ordered dictionaries\<close>

text \<open>\<^verbatim>\<open>d[k] = v\<close>: an existing key keeps its position, a new key goes to the end.\<close>

fun dict_set :: "('k \<times> 'v) list \<Rightarrow> 'k \<Rightarrow> 'v \<Rightarrow> ('k \<times> 'v) list" where
  "dict_set [] k v = [(k, v)]"
| "dict_set ((k', v') # d) k v =
     (if k' = k then (k', v) # d else (k', v') # dict_set d k v)"

text \<open>\<^verbatim>\<open>d.get(k, default)\<close>.\<close>

definition dict_get :: "('k \<times> 'v) list \<Rightarrow> 'k \<Rightarrow> 'v \<Rightarrow> 'v" where
  "dict_get d k dflt = (case map_of d k of None \<Rightarrow> dflt | Some v \<Rightarrow> v)"

text \<open>\<^verbatim>\<open>d[k]\<close>, which raises \<^verbatim>\<open>KeyError\<close> on a missing key.\<close>

definition dict_item :: "('k \<times> 'v) list \<Rightarrow> 'k \<Rightarrow> error + 'v" where
  "dict_item d k = (case map_of d k of None \<Rightarrow> Inl KeyError | Some v \<Rightarrow> Inr v)"

section \<open>Configuration (\<^verbatim>\<open>src/config.py\<close>)\<close>

type_synonym cell = "int \<times> int"

definition GRID_HEIGHT :: int where "GRID_HEIGHT = 3"
definition GRID_WIDTH :: int where "GRID_WIDTH = 4"
definition WALL_STATES :: "cell set" where "WALL_STATES = {(1, 1)}"
definition GOAL_STATE :: cell where "GOAL_STATE = (0, 3)"
definition TRAP_STATE :: cell where "TRAP_STATE = (1, 3)"

definition REWARD_GOAL :: real where "REWARD_GOAL = 1"
definition REWARD_TRAP :: real where "REWARD_TRAP = - 1"
definition REWARD_DEFAULT :: real where "REWARD_DEFAULT = - (4 / 100)"

definition ACTIONS :: "(string \<times> (int \<times> int)) list" where
  "ACTIONS = [(''North'', (- 1, 0)), (''South'', (1, 0)), (''East'', (0, 1)), (''West'', (0, - 1))]"

definition PROB_INTEND :: real where "PROB_INTEND = 8 / 10"
definition PROB_SLIP_LEFT :: real where "PROB_SLIP_LEFT = 1 / 10"
definition PROB_SLIP_RIGHT :: real where "PROB_SLIP_RIGHT = 1 / 10"

definition DEFAULT_GAMMA :: real where "DEFAULT_GAMMA = 99 / 100"
definition DEFAULT_EPSILON :: real where "DEFAULT_EPSILON = 1 / 10000"

section \<open>The environment (\<^verbatim>\<open>src/environment.py\<close>)\<close>

text \<open>
  The attributes of a \<^verbatim>\<open>Gridworld\<close> object. An entry of \<^verbatim>\<open>_action_slips\<close> is a dictionary
  with exactly the keys \<^verbatim>\<open>'left'\<close> and \<^verbatim>\<open>'right'\<close>, read only with these two literal keys:
  it is the pair (left, right).
\<close>

record gridworld =
  height :: int
  width :: int
  walls :: "cell set"
  terminal_states :: "cell set"
  states :: "cell list"
  action_slips :: "(string \<times> (string \<times> string)) list"

text \<open>\<^verbatim>\<open>Gridworld.__init__\<close>: the two nested \<^verbatim>\<open>range\<close> loops add every cell that is no wall.\<close>

definition Gridworld :: gridworld where
  "Gridworld =
     \<lparr> height = GRID_HEIGHT,
       width = GRID_WIDTH,
       walls = WALL_STATES,
       terminal_states = {GOAL_STATE, TRAP_STATE},
       states = concat (map (\<lambda>r. concat (map (\<lambda>c. if (r, c) \<in> WALL_STATES then [] else [(r, c)])
                                            [0 .. GRID_WIDTH - 1]))
                             [0 .. GRID_HEIGHT - 1]),
       action_slips =
         [(''North'', (''West'', ''East'')),
          (''South'', (''East'', ''West'')),
          (''East'', (''North'', ''South'')),
          (''West'', (''South'', ''North''))] \<rparr>"

definition get_states :: "gridworld \<Rightarrow> cell list" where
  "get_states self = states self"

definition get_actions :: "gridworld \<Rightarrow> cell \<Rightarrow> string list" where
  "get_actions self state =
     (if state \<in> terminal_states self then [] else map fst ACTIONS)"

definition get_reward :: "gridworld \<Rightarrow> cell \<Rightarrow> real" where
  "get_reward self state =
     (if state = GOAL_STATE then REWARD_GOAL
      else if state = TRAP_STATE then REWARD_TRAP
      else REWARD_DEFAULT)"

text \<open>\<^verbatim>\<open>_calculate_next_state\<close>; \<^verbatim>\<open>ACTIONS[action_name]\<close> raises on an unknown name.\<close>

definition calculate_next_state :: "gridworld \<Rightarrow> cell \<Rightarrow> string \<Rightarrow> error + cell" where
  "calculate_next_state self state action_name =
     (if state \<in> terminal_states self then Inr state
      else case dict_item ACTIONS action_name of
        Inl e \<Rightarrow> Inl e
      | Inr (dr, dc) \<Rightarrow>
          (let next_r = fst state + dr;
               next_c = snd state + dc;
               next_state = (next_r, next_c)
           in if \<not> (0 \<le> next_r \<and> next_r < height self \<and> 0 \<le> next_c \<and> next_c < width self)
                 \<or> next_state \<in> walls self
              then Inr state
              else Inr next_state))"

text \<open>Step 2 of \<^verbatim>\<open>get_transitions\<close>: the loop that appends one outcome per (prob, act).\<close>

fun outcomes :: "gridworld \<Rightarrow> cell \<Rightarrow> (real \<times> string) list \<Rightarrow> error + (real \<times> cell) list" where
  "outcomes self state [] = Inr []"
| "outcomes self state ((prob, act) # rest) =
     (case calculate_next_state self state act of
        Inl e \<Rightarrow> Inl e
      | Inr next_state \<Rightarrow>
          (case outcomes self state rest of
             Inl e \<Rightarrow> Inl e
           | Inr ts \<Rightarrow> Inr ((prob, next_state) # ts)))"

text \<open>Step 3: the consolidation loop, keyed by the successor state.\<close>

fun consolidate :: "(cell \<times> real) list \<Rightarrow> (real \<times> cell) list \<Rightarrow> (cell \<times> real) list" where
  "consolidate consolidated [] = consolidated"
| "consolidate consolidated ((prob, s_prime) # rest) =
     consolidate (dict_set consolidated s_prime (dict_get consolidated s_prime 0 + prob)) rest"

text \<open>
  \<^verbatim>\<open>get_transitions\<close>. The result is \<^verbatim>\<open>list(consolidated.items())\<close>: the items of a dictionary
  are (key, value) pairs, so every element is (successor state, probability), in this order.
\<close>

definition get_transitions :: "gridworld \<Rightarrow> cell \<Rightarrow> string \<Rightarrow> error + (cell \<times> real) list" where
  "get_transitions self state action =
     (if state \<in> terminal_states self then Inr []
      else case dict_item (action_slips self) action of
        Inl e \<Rightarrow> Inl e
      | Inr (action_left, action_right) \<Rightarrow>
          (case outcomes self state
                  [(PROB_INTEND, action), (PROB_SLIP_LEFT, action_left), (PROB_SLIP_RIGHT, action_right)] of
             Inl e \<Rightarrow> Inl e
           | Inr transitions \<Rightarrow> Inr (consolidate [] transitions)))"

section \<open>The solver (\<^verbatim>\<open>src/solver.py\<close>)\<close>

subsection \<open>The interface the solver consumes\<close>

text \<open>
  The solver is written against any object with the methods \<^verbatim>\<open>get_states\<close>, \<^verbatim>\<open>get_actions\<close>,
  \<^verbatim>\<open>get_reward\<close>, \<^verbatim>\<open>get_transitions\<close> and the attribute \<^verbatim>\<open>terminal_states\<close>. Python does not
  type the two components of an element of \<^verbatim>\<open>get_transitions(state, action)\<close>: the solver
  unpacks each element as \<^verbatim>\<open>prob, next_state\<close>, uses the second as a key of the utility table
  and multiplies by the first. A component is therefore a value that is either a float or a
  state identifier. State identifiers are not floats (in the repository they are tuples), so
  a float is never a key of a table whose keys are states.
\<close>

datatype 's pyval = PyFloat real | PyState 's

record ('s, 'a) env =
  env_states :: "'s list"
  env_terminal_states :: "'s set"
  env_actions :: "'s \<Rightarrow> 'a list"
  env_reward :: "'s \<Rightarrow> real"
  env_transitions :: "'s \<Rightarrow> 'a \<Rightarrow> error + ('s pyval \<times> 's pyval) list"

text \<open>
  A \<^verbatim>\<open>Gridworld\<close> object seen through this interface, as \<^verbatim>\<open>main.py\<close> passes it to the solver:
  an element of its transition list is the tuple (state, float) that \<open>get_transitions\<close> built.
\<close>

definition gridworld_env :: "gridworld \<Rightarrow> (cell, string) env" where
  "gridworld_env g =
     \<lparr> env_states = get_states g,
       env_terminal_states = terminal_states g,
       env_actions = get_actions g,
       env_reward = get_reward g,
       env_transitions = (\<lambda>state action.
          case get_transitions g state action of
            Inl e \<Rightarrow> Inl e
          | Inr ts \<Rightarrow> Inr (map (\<lambda>(s_prime, prob). (PyState s_prime, PyFloat prob)) ts)) \<rparr>"

text \<open>
  The same grid with each element of a transition list in the order that the docstring of
  \<^verbatim>\<open>get_transitions\<close> states and the solver unpacks, (probability, next state). It differs
  from \<open>gridworld_env\<close> in nothing but this order, and serves as an input on which the
  solver's reads succeed.
\<close>

definition gridworld_env_documented :: "gridworld \<Rightarrow> (cell, string) env" where
  "gridworld_env_documented g =
     (gridworld_env g)\<lparr> env_transitions := (\<lambda>state action.
          case get_transitions g state action of
            Inl e \<Rightarrow> Inl e
          | Inr ts \<Rightarrow> Inr (map (\<lambda>(s_prime, prob). (PyFloat prob, PyState s_prime)) ts)) \<rparr>"

subsection \<open>Construction\<close>

record ('s, 'a) MDPSolver =
  env :: "('s, 'a) env"
  gamma :: real
  epsilon :: real
  utilities :: "'s \<rightharpoonup> real"

text \<open>\<^verbatim>\<open>{s: 0.0 for s in self.env.get_states()}\<close>.\<close>

definition zero_utilities :: "('s, 'a) env \<Rightarrow> ('s \<rightharpoonup> real)" where
  "zero_utilities e = map_of (map (\<lambda>s. (s, 0)) (env_states e))"

text \<open>\<^verbatim>\<open>MDPSolver.__init__\<close>: it stores its arguments and has no \<^verbatim>\<open>raise\<close>.\<close>

definition MDPSolver_init ::
  "('s, 'a) env \<Rightarrow> real \<Rightarrow> real \<Rightarrow> error + ('s, 'a) MDPSolver" where
  "MDPSolver_init environment g eps =
     Inr \<lparr> env = environment, gamma = g, epsilon = eps, utilities = zero_utilities environment \<rparr>"

subsection \<open>Shared primitives\<close>

text \<open>\<^verbatim>\<open>utilities[next_state]\<close> and \<^verbatim>\<open>prob * u\<close> on untyped components.\<close>

definition utilities_item :: "('s \<rightharpoonup> real) \<Rightarrow> 's pyval \<Rightarrow> error + real" where
  "utilities_item U k =
     (case k of
        PyFloat x \<Rightarrow> Inl KeyError
      | PyState s \<Rightarrow> (case U s of None \<Rightarrow> Inl KeyError | Some u \<Rightarrow> Inr u))"

definition py_mul :: "'s pyval \<Rightarrow> real \<Rightarrow> error + real" where
  "py_mul prob u = (case prob of PyFloat p \<Rightarrow> Inr (p * u) | PyState s \<Rightarrow> Inl TypeError)"

text \<open>
  The loop \<^verbatim>\<open>for prob, next_state in ...: expected_utility += prob * utilities[next_state]\<close>,
  which \<^verbatim>\<open>_get_q_values\<close> and \<^verbatim>\<open>_policy_evaluation\<close> both contain. The subscript is evaluated
  before the product.
\<close>

fun expected_utility ::
  "('s \<rightharpoonup> real) \<Rightarrow> real \<Rightarrow> ('s pyval \<times> 's pyval) list \<Rightarrow> error + real" where
  "expected_utility U acc [] = Inr acc"
| "expected_utility U acc ((prob, next_state) # rest) =
     (case utilities_item U next_state of
        Inl e \<Rightarrow> Inl e
      | Inr u \<Rightarrow>
          (case py_mul prob u of
             Inl e \<Rightarrow> Inl e
           | Inr x \<Rightarrow> expected_utility U (acc + x) rest))"

fun q_values_loop ::
  "('s, 'a) env \<Rightarrow> 's \<Rightarrow> ('s \<rightharpoonup> real) \<Rightarrow> ('a \<times> real) list \<Rightarrow> 'a list \<Rightarrow> error + ('a \<times> real) list" where
  "q_values_loop e state U q_values [] = Inr q_values"
| "q_values_loop e state U q_values (action # rest) =
     (case env_transitions e state action of
        Inl err \<Rightarrow> Inl err
      | Inr ts \<Rightarrow>
          (case expected_utility U 0 ts of
             Inl err \<Rightarrow> Inl err
           | Inr eu \<Rightarrow> q_values_loop e state U (dict_set q_values action eu) rest))"

definition get_q_values ::
  "('s, 'a) MDPSolver \<Rightarrow> 's \<Rightarrow> ('s \<rightharpoonup> real) \<Rightarrow> error + ('a \<times> real) list" where
  "get_q_values self state U = q_values_loop (env self) state U [] (env_actions (env self) state)"

text \<open>\<^verbatim>\<open>max(q_values.values()) if q_values else 0.0\<close>.\<close>

definition max_q_of :: "('a \<times> real) list \<Rightarrow> real" where
  "max_q_of q_values = (case map snd q_values of [] \<Rightarrow> 0 | v # vs \<Rightarrow> foldl max v vs)"

text \<open>
  \<^verbatim>\<open>max(q_values, key=q_values.get)\<close> on a non-empty dictionary (the first key whose value
  is maximal), and \<^verbatim>\<open>None\<close> where the code tests \<^verbatim>\<open>not q_values\<close> first.
\<close>

definition best_action_of :: "('a \<times> real) list \<Rightarrow> 'a option" where
  "best_action_of q_values =
     (case q_values of
        [] \<Rightarrow> None
      | kv # kvs \<Rightarrow> Some (fst (foldl (\<lambda>best kv'. if snd best < snd kv' then kv' else best) kv kvs)))"

fun extract_policy_loop ::
  "('s, 'a) MDPSolver \<Rightarrow> ('s \<rightharpoonup> real) \<Rightarrow> ('s \<rightharpoonup> 'a option) \<Rightarrow> 's list \<Rightarrow> error + ('s \<rightharpoonup> 'a option)" where
  "extract_policy_loop self U policy [] = Inr policy"
| "extract_policy_loop self U policy (state # rest) =
     (if state \<in> env_terminal_states (env self)
      then extract_policy_loop self U (policy(state \<mapsto> None)) rest
      else case get_q_values self state U of
        Inl e \<Rightarrow> Inl e
      | Inr q_values \<Rightarrow> extract_policy_loop self U (policy(state \<mapsto> best_action_of q_values)) rest)"

definition extract_policy ::
  "('s, 'a) MDPSolver \<Rightarrow> ('s \<rightharpoonup> real) \<Rightarrow> error + ('s \<rightharpoonup> 'a option)" where
  "extract_policy self U = extract_policy_loop self U Map.empty (env_states (env self))"

subsection \<open>Value Iteration\<close>

text \<open>
  The \<^verbatim>\<open>for state in self.env.get_states()\<close> loop of one sweep. Its state is the pair
  (\<^verbatim>\<open>new_utilities\<close>, \<^verbatim>\<open>delta\<close>); \<^verbatim>\<open>self.utilities\<close> is not assigned before the loop ends.
\<close>

fun value_iteration_states ::
  "('s, 'a) MDPSolver \<Rightarrow> ('s \<rightharpoonup> real) \<times> real \<Rightarrow> 's list \<Rightarrow> error + (('s \<rightharpoonup> real) \<times> real)" where
  "value_iteration_states self (new_utilities, delta) [] = Inr (new_utilities, delta)"
| "value_iteration_states self (new_utilities, delta) (state # rest) =
     (if state \<in> env_terminal_states (env self)
      then value_iteration_states self
             (new_utilities(state \<mapsto> env_reward (env self) state), delta) rest
      else case get_q_values self state (utilities self) of
        Inl e \<Rightarrow> Inl e
      | Inr q_values \<Rightarrow>
          (let max_q = max_q_of q_values;
               v = env_reward (env self) state + gamma self * max_q
           in case utilities self state of
                None \<Rightarrow> Inl KeyError
              | Some old \<Rightarrow>
                  value_iteration_states self
                    (new_utilities(state \<mapsto> v), max delta \<bar>v - old\<bar>) rest))"

text \<open>One pass of the \<^verbatim>\<open>while True\<close> body up to the assignment of \<^verbatim>\<open>self.utilities\<close>.\<close>

definition value_iteration_sweep ::
  "('s, 'a) MDPSolver \<Rightarrow> error + (('s \<rightharpoonup> real) \<times> real)" where
  "value_iteration_sweep self =
     value_iteration_states self (utilities self, 0) (env_states (env self))"

partial_function (option) value_iteration_loop ::
  "('s, 'a) MDPSolver \<Rightarrow> (error + ('s, 'a) MDPSolver) option" where
  "value_iteration_loop self =
     (case value_iteration_sweep self of
        Inl e \<Rightarrow> Some (Inl e)
      | Inr (new_utilities, delta) \<Rightarrow>
          (if delta < epsilon self
           then Some (Inr (self\<lparr>utilities := new_utilities\<rparr>))
           else value_iteration_loop (self\<lparr>utilities := new_utilities\<rparr>)))"

declare value_iteration_loop.simps [code]

definition solve_value_iteration ::
  "('s, 'a) MDPSolver \<Rightarrow> (error + (('s \<rightharpoonup> real) \<times> ('s \<rightharpoonup> 'a option))) option" where
  "solve_value_iteration self =
     (case value_iteration_loop self of
        None \<Rightarrow> None
      | Some (Inl e) \<Rightarrow> Some (Inl e)
      | Some (Inr self') \<Rightarrow>
          (case extract_policy self' (utilities self') of
             Inl e \<Rightarrow> Some (Inl e)
           | Inr policy \<Rightarrow> Some (Inr (utilities self', policy))))"

subsection \<open>Policy Iteration\<close>

text \<open>
  \<^verbatim>\<open>random.choice(actions)\<close> returns one element of a non-empty list. The draws are a
  parameter of the model: \<open>rnd state\<close> is the number drawn when the loop is at \<open>state\<close>.
\<close>

definition random_choice :: "nat \<Rightarrow> 'a list \<Rightarrow> 'a" where
  "random_choice n xs = xs ! (n mod length xs)"

fun initial_policy_loop ::
  "('s, 'a) MDPSolver \<Rightarrow> ('s \<Rightarrow> nat) \<Rightarrow> ('s \<rightharpoonup> 'a option) \<Rightarrow> 's list \<Rightarrow> ('s \<rightharpoonup> 'a option)" where
  "initial_policy_loop self rnd policy [] = policy"
| "initial_policy_loop self rnd policy (state # rest) =
     (if state \<in> env_terminal_states (env self)
      then initial_policy_loop self rnd (policy(state \<mapsto> None)) rest
      else let actions = env_actions (env self) state
           in initial_policy_loop self rnd
                (policy(state \<mapsto> (if actions \<noteq> [] then Some (random_choice (rnd state) actions) else None)))
                rest)"

text \<open>\<^verbatim>\<open>policy.get(state)\<close>: \<^verbatim>\<open>None\<close> for a missing key.\<close>

definition policy_get :: "('s \<rightharpoonup> 'a option) \<Rightarrow> 's \<Rightarrow> 'a option" where
  "policy_get policy state = (case policy state of None \<Rightarrow> None | Some a \<Rightarrow> a)"

text \<open>The \<^verbatim>\<open>for\<close> loop of one sweep of \<^verbatim>\<open>_policy_evaluation\<close>.\<close>

fun policy_evaluation_states ::
  "('s, 'a) MDPSolver \<Rightarrow> ('s \<rightharpoonup> 'a option) \<Rightarrow> ('s \<rightharpoonup> real) \<Rightarrow> ('s \<rightharpoonup> real) \<times> real \<Rightarrow> 's list
   \<Rightarrow> error + (('s \<rightharpoonup> real) \<times> real)" where
  "policy_evaluation_states self policy eval_utilities (new_eval_utilities, delta) [] =
     Inr (new_eval_utilities, delta)"
| "policy_evaluation_states self policy eval_utilities (new_eval_utilities, delta) (state # rest) =
     (if state \<in> env_terminal_states (env self)
      then policy_evaluation_states self policy eval_utilities
             (new_eval_utilities(state \<mapsto> env_reward (env self) state), delta) rest
      else case policy_get policy state of
        None \<Rightarrow>
          policy_evaluation_states self policy eval_utilities
            (new_eval_utilities(state \<mapsto> env_reward (env self) state), delta) rest
      | Some action \<Rightarrow>
          (case env_transitions (env self) state action of
             Inl e \<Rightarrow> Inl e
           | Inr ts \<Rightarrow>
               (case expected_utility eval_utilities 0 ts of
                  Inl e \<Rightarrow> Inl e
                | Inr eu \<Rightarrow>
                    (let v = env_reward (env self) state + gamma self * eu
                     in case eval_utilities state of
                          None \<Rightarrow> Inl KeyError
                        | Some old \<Rightarrow>
                            policy_evaluation_states self policy eval_utilities
                              (new_eval_utilities(state \<mapsto> v), max delta \<bar>v - old\<bar>) rest))))"

partial_function (option) policy_evaluation_loop ::
  "('s, 'a) MDPSolver \<Rightarrow> ('s \<rightharpoonup> 'a option) \<Rightarrow> ('s \<rightharpoonup> real) \<Rightarrow> (error + ('s \<rightharpoonup> real)) option" where
  "policy_evaluation_loop self policy eval_utilities =
     (case policy_evaluation_states self policy eval_utilities (eval_utilities, 0)
             (env_states (env self)) of
        Inl e \<Rightarrow> Some (Inl e)
      | Inr (new_eval_utilities, delta) \<Rightarrow>
          (if delta < epsilon self
           then Some (Inr new_eval_utilities)
           else policy_evaluation_loop self policy new_eval_utilities))"

declare policy_evaluation_loop.simps [code]

definition policy_evaluation ::
  "('s, 'a) MDPSolver \<Rightarrow> ('s \<rightharpoonup> 'a option) \<Rightarrow> (error + ('s \<rightharpoonup> real)) option" where
  "policy_evaluation self policy = policy_evaluation_loop self policy (zero_utilities (env self))"

text \<open>The policy improvement loop; its state is the pair (\<^verbatim>\<open>new_policy\<close>, \<^verbatim>\<open>is_stable\<close>).\<close>

fun policy_improvement_states ::
  "('s, 'a) MDPSolver \<Rightarrow> ('s \<rightharpoonup> 'a option) \<Rightarrow> ('s \<rightharpoonup> 'a option) \<times> bool \<Rightarrow> 's list
   \<Rightarrow> error + (('s \<rightharpoonup> 'a option) \<times> bool)" where
  "policy_improvement_states self policy (new_policy, is_stable) [] = Inr (new_policy, is_stable)"
| "policy_improvement_states self policy (new_policy, is_stable) (state # rest) =
     (if state \<in> env_terminal_states (env self)
      then policy_improvement_states self policy (new_policy(state \<mapsto> None), is_stable) rest
      else case get_q_values self state (utilities self) of
        Inl e \<Rightarrow> Inl e
      | Inr q_values \<Rightarrow>
          (case best_action_of q_values of
             None \<Rightarrow>
               policy_improvement_states self policy (new_policy(state \<mapsto> None), is_stable) rest
           | Some best_action \<Rightarrow>
               policy_improvement_states self policy
                 (new_policy(state \<mapsto> Some best_action),
                  (if Some best_action \<noteq> policy_get policy state then False else is_stable))
                 rest))"

partial_function (option) policy_iteration_loop ::
  "('s, 'a) MDPSolver \<Rightarrow> ('s \<rightharpoonup> 'a option)
   \<Rightarrow> (error + (('s \<rightharpoonup> real) \<times> ('s \<rightharpoonup> 'a option))) option" where
  "policy_iteration_loop self policy =
     (case policy_evaluation self policy of
        None \<Rightarrow> None
      | Some (Inl e) \<Rightarrow> Some (Inl e)
      | Some (Inr U) \<Rightarrow>
          (case policy_improvement_states (self\<lparr>utilities := U\<rparr>) policy (Map.empty, True)
                  (env_states (env self)) of
             Inl e \<Rightarrow> Some (Inl e)
           | Inr (new_policy, is_stable) \<Rightarrow>
               (if is_stable
                then Some (Inr (U, new_policy))
                else policy_iteration_loop (self\<lparr>utilities := U\<rparr>) new_policy)))"

declare policy_iteration_loop.simps [code]

definition solve_policy_iteration ::
  "('s, 'a) MDPSolver \<Rightarrow> ('s \<Rightarrow> nat)
   \<Rightarrow> (error + (('s \<rightharpoonup> real) \<times> ('s \<rightharpoonup> 'a option))) option" where
  "solve_policy_iteration self rnd =
     policy_iteration_loop self (initial_policy_loop self rnd Map.empty (env_states (env self)))"

section \<open>The renderers (\<^verbatim>\<open>src/visualization.py\<close>)\<close>

text \<open>
  Both renderers compare the tuple \<^verbatim>\<open>state\<close> with the attribute \<^verbatim>\<open>gridworld.terminal_states\<close>,
  a set of tuples, using \<^verbatim>\<open>==\<close>. Python's \<^verbatim>\<open>==\<close> compares two tuples by their components and
  two sets by their elements; between a tuple and a set both \<^verbatim>\<open>__eq__\<close> methods decline and
  the result is \<^verbatim>\<open>False\<close>.
\<close>

datatype pyobj = Tuple cell | Set "cell set"

fun py_eq :: "pyobj \<Rightarrow> pyobj \<Rightarrow> bool" where
  "py_eq (Tuple a) (Tuple b) = (a = b)"
| "py_eq (Set A) (Set B) = (A = B)"
| "py_eq (Tuple a) (Set B) = False"
| "py_eq (Set A) (Tuple b) = False"

text \<open>
  What a renderer appends to \<^verbatim>\<open>row_str\<close> for one cell. The formatted number of the two
  utility branches is the same text; the constructors keep the branches apart.
\<close>

datatype utility_cell = WallLabel | TerminalUtility real | StateUtility real | Dashes

definition utilities_grid_cell :: "(cell \<rightharpoonup> real) \<Rightarrow> gridworld \<Rightarrow> cell \<Rightarrow> utility_cell" where
  "utilities_grid_cell U g state =
     (if state \<in> walls g then WallLabel
      else if py_eq (Tuple state) (Set (terminal_states g))
        then TerminalUtility (case U state of None \<Rightarrow> 0 | Some u \<Rightarrow> u)
      else case U state of Some u \<Rightarrow> StateUtility u | None \<Rightarrow> Dashes)"

definition print_utilities_grid :: "(cell \<rightharpoonup> real) \<Rightarrow> gridworld \<Rightarrow> utility_cell list list" where
  "print_utilities_grid U g =
     map (\<lambda>r. map (\<lambda>c. utilities_grid_cell U g (r, c)) [0 .. width g - 1]) [0 .. height g - 1]"

datatype policy_cell = WallText | GoalText | TrapText | Symbol string | DashesText

definition action_symbols :: "(string option \<times> string) list" where
  "action_symbols =
     [(Some ''North'', ''   ^    ''), (Some ''South'', ''   v    ''),
      (Some ''East'', ''   >    ''), (Some ''West'', ''   <    ''), (None, ''   .    '')]"

text \<open>
  A \<^verbatim>\<open>Gridworld\<close> object has no attribute \<^verbatim>\<open>goal_state\<close>: reading it in the terminal branch
  raises \<^verbatim>\<open>AttributeError\<close> before either label is chosen.
\<close>

definition goal_state_attr :: "gridworld \<Rightarrow> error + cell" where
  "goal_state_attr g = Inl AttributeError"

definition policy_grid_cell :: "(cell \<rightharpoonup> string option) \<Rightarrow> gridworld \<Rightarrow> cell \<Rightarrow> error + policy_cell" where
  "policy_grid_cell policy g state =
     (if state \<in> walls g then Inr WallText
      else if py_eq (Tuple state) (Set (terminal_states g))
        then (case goal_state_attr g of
                Inl e \<Rightarrow> Inl e
              | Inr goal \<Rightarrow> if py_eq (Tuple state) (Tuple goal) then Inr GoalText else Inr TrapText)
      else case policy state of
             Some action \<Rightarrow> Inr (Symbol (dict_get action_symbols action ''   ?    ''))
           | None \<Rightarrow> Inr DashesText)"

definition print_policy_grid :: "(cell \<rightharpoonup> string option) \<Rightarrow> gridworld \<Rightarrow> (error + policy_cell) list list" where
  "print_policy_grid policy g =
     map (\<lambda>r. map (\<lambda>c. policy_grid_cell policy g (r, c)) [0 .. width g - 1]) [0 .. height g - 1]"

section \<open>A small model for concrete runs\<close>

text \<open>
  Three states: state 0 has the single action \<open>''go''\<close>, which leads to state 1 or state 2 with
  probability one half each; state 1 is terminal with reward 1; state 2 is not terminal and
  has no action. Its transition lists have the form the solver unpacks: (probability,
  next state).
\<close>

definition small_env :: "(int, string) env" where
  "small_env =
     \<lparr> env_states = [0, 1, 2],
       env_terminal_states = {1},
       env_actions = (\<lambda>s. if s = 0 then [''go''] else []),
       env_reward = (\<lambda>s. if s = 1 then 1 else - (4 / 100)),
       env_transitions = (\<lambda>s a.
          if s = 0 \<and> a = ''go''
          then Inr [(PyFloat (1 / 2), PyState 1), (PyFloat (1 / 2), PyState 2)]
          else Inr []) \<rparr>"

text \<open>The solver built on \<open>small_env\<close> with its utilities at zero.\<close>

definition small_solver :: "real \<Rightarrow> real \<Rightarrow> (int, string) MDPSolver" where
  "small_solver g eps =
     \<lparr> env = small_env, gamma = g, epsilon = eps, utilities = zero_utilities small_env \<rparr>"

section \<open>The front end (\<^verbatim>\<open>main.py\<close>)\<close>

text \<open>
  The \<^verbatim>\<open>value_iteration\<close> path of \<^verbatim>\<open>main\<close>: build the \<^verbatim>\<open>Gridworld\<close>, build the solver with
  the parsed \<^verbatim>\<open>gamma\<close> and \<^verbatim>\<open>epsilon\<close>, call \<^verbatim>\<open>solve_value_iteration\<close>.
\<close>

definition main_value_iteration ::
  "real \<Rightarrow> real \<Rightarrow> (error + ((cell \<rightharpoonup> real) \<times> (cell \<rightharpoonup> string option))) option" where
  "main_value_iteration g eps =
     (case MDPSolver_init (gridworld_env Gridworld) g eps of
        Inl e \<Rightarrow> Some (Inl e)
      | Inr solver \<Rightarrow> solve_value_iteration solver)"

section \<open>The specification's formulas\<close>

text \<open>
  The definitions of this section follow the words of the specification, not the code; the
  theorems below compare the code with them.

  A transition list is read as the specification describes it: each element is a pair of
  a probability and a next state. \<open>readable U\<close> holds of an element that has this form and
  whose next state has an entry in the table \<open>U\<close>; on any other element \<open>prob_of\<close> and
  \<open>utility_at\<close> are 0.
\<close>

fun prob_of :: "'s pyval \<Rightarrow> real" where
  "prob_of (PyFloat p) = p"
| "prob_of (PyState s) = 0"

definition utility_of :: "('s \<rightharpoonup> real) \<Rightarrow> 's \<Rightarrow> real" where
  "utility_of U s = (case U s of None \<Rightarrow> 0 | Some u \<Rightarrow> u)"

fun utility_at :: "('s \<rightharpoonup> real) \<Rightarrow> 's pyval \<Rightarrow> real" where
  "utility_at U (PyState s) = utility_of U s"
| "utility_at U (PyFloat x) = 0"

fun readable :: "('s \<rightharpoonup> real) \<Rightarrow> 's pyval \<times> 's pyval \<Rightarrow> bool" where
  "readable U (PyFloat p, PyState s) = (U s \<noteq> None)"
| "readable U (PyFloat p, PyFloat x) = False"
| "readable U (PyState s, y) = False"

text \<open>
  Consolidation: "duplicate destinations from different stochastic outcomes must have their
  probabilities summed". \<open>outcome_mass outs s'\<close> is the sum of the probabilities of the
  outcomes in \<open>outs\<close>, a list of (probability, destination), whose destination is \<open>s'\<close>.
\<close>

definition outcome_mass :: "(real \<times> 's) list \<Rightarrow> 's \<Rightarrow> real" where
  "outcome_mass outs s' = sum_list (map fst (filter (\<lambda>(prob, dest). dest = s') outs))"

text \<open>
  The action-value: "the probability-weighted sum over transitions(state, action) of the
  successor's utility under the supplied utility table (no reward term)".
\<close>

definition weighted_sum_spec :: "('s \<rightharpoonup> real) \<Rightarrow> ('s pyval \<times> 's pyval) list \<Rightarrow> real" where
  "weighted_sum_spec U ts = (\<Sum>(prob, next_state) \<leftarrow> ts. prob_of prob * utility_at U next_state)"

definition action_value_spec :: "('s, 'a) env \<Rightarrow> ('s \<rightharpoonup> real) \<Rightarrow> 's \<Rightarrow> 'a \<Rightarrow> real" where
  "action_value_spec e U s a =
     (case env_transitions e s a of Inl err \<Rightarrow> 0 | Inr ts \<Rightarrow> weighted_sum_spec U ts)"

text \<open>
  The Bellman backup: "if terminal, new utility = reward(state); else new utility =
  reward(state) + gamma * max(q_values(state, old_utilities)); if no legal actions, the max
  term is treated as 0".
\<close>

definition bellman_backup_spec :: "('s, 'a) env \<Rightarrow> real \<Rightarrow> ('s \<rightharpoonup> real) \<Rightarrow> 's \<Rightarrow> real" where
  "bellman_backup_spec e g U s =
     (if s \<in> env_terminal_states e then env_reward e s
      else env_reward e s +
           g * (if env_actions e s = [] then 0
                else Max (action_value_spec e U s ` set (env_actions e s))))"

text \<open>
  One synchronous sweep: "each sweep computes a new utility table from the current one".
\<close>

definition bellman_sweep_spec :: "('s, 'a) env \<Rightarrow> real \<Rightarrow> ('s \<rightharpoonup> real) \<Rightarrow> ('s \<rightharpoonup> real)" where
  "bellman_sweep_spec e g U =
     (\<lambda>s. if s \<in> set (env_states e) then Some (bellman_backup_spec e g U s) else U s)"

text \<open>
  "The maximum absolute difference between the new and old utility" over a set of states;
  it is 0 over no state, as the code's \<^verbatim>\<open>delta\<close> starts at 0.
\<close>

definition max_abs_difference_spec :: "'s set \<Rightarrow> ('s \<rightharpoonup> real) \<Rightarrow> ('s \<rightharpoonup> real) \<Rightarrow> real" where
  "max_abs_difference_spec S U' U = Max (insert 0 ((\<lambda>s. \<bar>utility_of U' s - utility_of U s\<bar>) ` S))"

text \<open>
  A model that keeps the contract of the specification's data model: from every
  non-terminal state and every legal action the transition list is a list of (probability,
  next state) pairs, with probabilities that are not negative and sum to 1 and next states
  in the state space.
\<close>

definition proper_transitions :: "('s, 'a) env \<Rightarrow> ('s pyval \<times> 's pyval) list \<Rightarrow> bool" where
  "proper_transitions e ts =
     (list_all (\<lambda>(prob, next_state).
                  (case prob of PyFloat p \<Rightarrow> 0 \<le> p | PyState s \<Rightarrow> False) \<and>
                  (case next_state of PyState s' \<Rightarrow> s' \<in> set (env_states e) | PyFloat x \<Rightarrow> False)) ts
      \<and> sum_list (map (\<lambda>(prob, next_state). prob_of prob) ts) = 1)"

definition proper_model :: "('s, 'a) env \<Rightarrow> bool" where
  "proper_model e =
     (\<forall>s \<in> set (env_states e). s \<notin> env_terminal_states e \<longrightarrow>
        (\<forall>a \<in> set (env_actions e s).
           case env_transitions e s a of Inl err \<Rightarrow> False | Inr ts \<Rightarrow> proper_transitions e ts))"

section \<open>Properties of the environment\<close>

subsection \<open>Dictionaries\<close>

lemma dict_set_keys:
  "map fst (dict_set d k v) = (if k \<in> fst ` set d then map fst d else map fst d @ [k])"
  by (induction d) force+

lemma distinct_dict_set: "distinct (map fst d) \<Longrightarrow> distinct (map fst (dict_set d k v))"
  by (simp add: dict_set_keys)

lemma sum_dict_set:
  "sum_list (map snd (dict_set d k (dict_get d k 0 + p))) = sum_list (map snd d) + (p::real)"
  by (induction d) (auto simp: dict_get_def)

lemma dict_item_known: "k \<in> fst ` set d \<Longrightarrow> \<exists>v. dict_item d k = Inr v"
  by (cases "map_of d k") (auto simp: dict_item_def map_of_eq_None_iff)

lemma fst_set_dict_set: "fst ` set (dict_set q a v) = insert a (fst ` set q)"
proof -
  have "set (map fst (dict_set q a v)) = insert a (set (map fst q))"
    by (simp add: dict_set_keys insert_absorb)
  then show ?thesis by simp
qed

lemma set_dict_set_subset: "set (dict_set q a v) \<subseteq> insert (a, v) (set q)"
  by (induction q) (auto split: if_splits)

lemma dict_get_positive:
  "\<forall>kv \<in> set d. 0 < snd kv \<Longrightarrow> 0 \<le> dict_get d k (0::real)"
  by (cases "map_of d k") (auto simp: dict_get_def dest!: map_of_SomeD)

lemma dict_get_dict_set:
  "dict_get (dict_set d k v) k' dflt = (if k' = k then v else dict_get d k' dflt)"
  by (induction d) (auto simp: dict_get_def)

lemma dict_get_distinct:
  "distinct (map fst d) \<Longrightarrow> (k, v) \<in> set d \<Longrightarrow> dict_get d k dflt = v"
  by (simp add: dict_get_def)

subsection \<open>Consolidation\<close>

lemma distinct_consolidate:
  "distinct (map fst d) \<Longrightarrow> distinct (map fst (consolidate d ts))"
  by (induction d ts rule: consolidate.induct) (simp_all add: distinct_dict_set)

lemma sum_consolidate:
  "sum_list (map snd (consolidate d ts)) = sum_list (map snd d) + sum_list (map fst ts)"
  by (induction d ts rule: consolidate.induct) (simp_all add: sum_dict_set)

lemma consolidate_keys:
  "fst ` set (consolidate d ts) = fst ` set d \<union> snd ` set ts"
  by (induction d ts rule: consolidate.induct) (auto simp: fst_set_dict_set)

lemma consolidate_positive:
  assumes "\<forall>kv \<in> set d. 0 < snd kv" and "\<forall>pt \<in> set ts. 0 < fst pt"
  shows "\<forall>kv \<in> set (consolidate d ts). (0::real) < snd kv"
  using assms
proof (induction d ts rule: consolidate.induct)
  case (1 consolidated)
  then show ?case by simp
next
  case (2 consolidated prob s_prime rest)
  let ?d = "dict_set consolidated s_prime (dict_get consolidated s_prime 0 + prob)"
  from "2.prems" have "0 < dict_get consolidated s_prime 0 + prob"
    using dict_get_positive [of consolidated s_prime] by simp
  with "2.prems"(1) set_dict_set_subset [of consolidated s_prime "dict_get consolidated s_prime 0 + prob"]
  have "\<forall>kv \<in> set ?d. 0 < snd kv" by auto
  with "2.IH" "2.prems"(2) show ?case by simp
qed

lemma outcome_mass_Cons:
  "outcome_mass ((prob, dest) # outs) s' = (if dest = s' then prob else 0) + outcome_mass outs s'"
  by (simp add: outcome_mass_def)

lemma consolidate_dict_get:
  "dict_get (consolidate d outs) s' 0 = dict_get d s' 0 + outcome_mass outs s'"
proof (induction d outs rule: consolidate.induct)
  case (1 consolidated)
  then show ?case by (simp add: outcome_mass_def)
next
  case (2 consolidated prob s_prime rest)
  then show ?case by (simp add: dict_get_dict_set outcome_mass_Cons)
qed

lemma consolidate_mass:
  assumes "(s', p) \<in> set (consolidate [] outs)"
  shows "p = outcome_mass outs s'"
proof -
  have "distinct (map fst (consolidate [] outs))"
    by (rule distinct_consolidate) simp
  from dict_get_distinct [OF this assms, of 0] consolidate_dict_get [of "[]" outs s']
  show ?thesis by (simp add: dict_get_def)
qed

lemma outcomes_three:
  assumes "outcomes self state [(p0, a0), (p1, a1), (p2, a2)] = Inr ts"
  shows "\<exists>s0 s1 s2. calculate_next_state self state a0 = Inr s0
                  \<and> calculate_next_state self state a1 = Inr s1
                  \<and> calculate_next_state self state a2 = Inr s2
                  \<and> ts = [(p0, s0), (p1, s1), (p2, s2)]"
  using assms by (auto split: sum.splits)

lemma calculate_next_state_known:
  assumes "action_name \<in> fst ` set ACTIONS"
  shows "\<exists>s'. calculate_next_state self state action_name = Inr s'"
proof -
  from dict_item_known [OF assms] obtain v where "dict_item ACTIONS action_name = Inr v" ..
  then show ?thesis
    by (cases v) (simp add: calculate_next_state_def Let_def)
qed

lemma outcomes_known:
  "\<forall>pa \<in> set pas. snd pa \<in> fst ` set ACTIONS \<Longrightarrow>
   \<exists>ts. outcomes self state pas = Inr ts \<and> map fst ts = map fst pas"
proof (induction pas)
  case Nil
  then show ?case by simp
next
  case (Cons pa pas)
  obtain p act where pa: "pa = (p, act)" by (cases pa)
  with Cons.prems have "act \<in> fst ` set ACTIONS" by simp
  then obtain s' where s': "calculate_next_state self state act = Inr s'"
    using calculate_next_state_known by blast
  from Cons.prems have "\<forall>pa \<in> set pas. snd pa \<in> fst ` set ACTIONS" by simp
  with Cons.IH obtain ts where ts: "outcomes self state pas = Inr ts" "map fst ts = map fst pas"
    by blast
  show ?case by (simp add: pa s' ts)
qed

lemma actions_keys: "fst ` set ACTIONS = {''North'', ''South'', ''East'', ''West''}"
  by (simp add: ACTIONS_def)

lemma slips_known:
  assumes "a \<in> fst ` set ACTIONS"
  shows "\<exists>l r. dict_item (action_slips Gridworld) a = Inr (l, r)
               \<and> l \<in> fst ` set ACTIONS \<and> r \<in> fst ` set ACTIONS"
proof -
  from assms have "a = ''North'' \<or> a = ''South'' \<or> a = ''East'' \<or> a = ''West''"
    by (simp add: actions_keys)
  then show ?thesis
    by (elim disjE) (simp_all add: actions_keys Gridworld_def dict_item_def)
qed

lemma origin_not_terminal: "(0, 0) \<notin> terminal_states Gridworld"
  by (simp add: Gridworld_def GOAL_STATE_def TRAP_STATE_def)

lemma goal_terminal: "(0, 3) \<in> terminal_states Gridworld"
  by (simp add: Gridworld_def GOAL_STATE_def)

lemma gridworld_states:
  "get_states Gridworld =
     [(0, 0), (0, 1), (0, 2), (0, 3), (1, 0), (1, 2), (1, 3), (2, 0), (2, 1), (2, 2), (2, 3)]"
  by code_simp

lemma set_gridworld_states:
  "set (get_states Gridworld) =
     {(r, c). 0 \<le> r \<and> r < height Gridworld \<and> 0 \<le> c \<and> c < width Gridworld
              \<and> (r, c) \<notin> walls Gridworld}"
  by (auto simp: get_states_def Gridworld_def GRID_HEIGHT_def GRID_WIDTH_def split: if_splits)

lemma calculate_next_state_in_states:
  assumes "calculate_next_state Gridworld state action_name = Inr s'"
    and "state \<in> set (get_states Gridworld)"
  shows "s' \<in> set (get_states Gridworld)"
proof (cases "state \<in> terminal_states Gridworld")
  case True
  with assms show ?thesis by (simp add: calculate_next_state_def)
next
  case False
  with assms(1) obtain dr dc where "dict_item ACTIONS action_name = Inr (dr, dc)"
    by (cases "dict_item ACTIONS action_name") (auto simp: calculate_next_state_def)
  with assms False show ?thesis
    unfolding set_gridworld_states
    by (auto simp: calculate_next_state_def Let_def split: if_splits)
qed

lemma outcomes_in_states:
  assumes "outcomes Gridworld state pas = Inr ts" and "state \<in> set (get_states Gridworld)"
  shows "snd ` set ts \<subseteq> set (get_states Gridworld)"
  using assms(1)
proof (induction pas arbitrary: ts)
  case Nil
  then show ?case by simp
next
  case (Cons pa pas)
  obtain p act where pa: "pa = (p, act)" by (cases pa)
  from Cons.prems pa obtain s' where s': "calculate_next_state Gridworld state act = Inr s'"
    by (cases "calculate_next_state Gridworld state act") auto
  from Cons.prems pa s' obtain ts' where ts': "outcomes Gridworld state pas = Inr ts'"
    and ts: "ts = (p, s') # ts'"
    by (cases "outcomes Gridworld state pas") auto
  from Cons.IH [OF ts'] calculate_next_state_in_states [OF s' assms(2)] ts
  show ?case by simp
qed

lemma get_transitions_legal:
  assumes "s \<notin> terminal_states Gridworld" and "a \<in> set (get_actions Gridworld s)"
  obtains l r ts
  where "outcomes Gridworld s [(PROB_INTEND, a), (PROB_SLIP_LEFT, l), (PROB_SLIP_RIGHT, r)] = Inr ts"
    and "map fst ts = [PROB_INTEND, PROB_SLIP_LEFT, PROB_SLIP_RIGHT]"
    and "get_transitions Gridworld s a = Inr (consolidate [] ts)"
proof -
  from assms have a: "a \<in> fst ` set ACTIONS" by (simp add: get_actions_def)
  from slips_known [OF a] obtain l r where lr: "dict_item (action_slips Gridworld) a = Inr (l, r)"
    "l \<in> fst ` set ACTIONS" "r \<in> fst ` set ACTIONS"
    by blast
  let ?pas = "[(PROB_INTEND, a), (PROB_SLIP_LEFT, l), (PROB_SLIP_RIGHT, r)]"
  from a lr have "\<forall>pa \<in> set ?pas. snd pa \<in> fst ` set ACTIONS" by simp
  from outcomes_known [OF this] obtain ts
    where ts: "outcomes Gridworld s ?pas = Inr ts" "map fst ts = map fst ?pas"
    by blast
  have "get_transitions Gridworld s a = Inr (consolidate [] ts)"
    using assms(1) lr(1) ts(1) by (simp add: get_transitions_def)
  with ts show ?thesis by (intro that [of l r ts]) simp_all
qed

lemma get_transitions_sound:
  assumes "s \<in> set (get_states Gridworld)" and "s \<notin> terminal_states Gridworld"
    and "a \<in> set (get_actions Gridworld s)"
  shows "\<exists>ts. get_transitions Gridworld s a = Inr ts
            \<and> (\<forall>sp \<in> set ts. fst sp \<in> set (get_states Gridworld) \<and> 0 < snd sp)
            \<and> sum_list (map snd ts) = 1"
proof -
  obtain l r ts
    where o: "outcomes Gridworld s [(PROB_INTEND, a), (PROB_SLIP_LEFT, l), (PROB_SLIP_RIGHT, r)] = Inr ts"
      and p: "map fst ts = [PROB_INTEND, PROB_SLIP_LEFT, PROB_SLIP_RIGHT]"
      and g: "get_transitions Gridworld s a = Inr (consolidate [] ts)"
    by (rule get_transitions_legal [OF assms(2,3)])
  have pos: "\<forall>pt \<in> set ts. 0 < fst pt"
  proof
    fix pt assume "pt \<in> set ts"
    then have "fst pt \<in> set (map fst ts)" by simp
    then show "0 < fst pt"
      unfolding p by (auto simp: PROB_INTEND_def PROB_SLIP_LEFT_def PROB_SLIP_RIGHT_def)
  qed
  have "\<forall>kv \<in> set (consolidate [] ts). 0 < snd kv"
    by (rule consolidate_positive) (simp_all add: pos)
  moreover have "fst ` set (consolidate [] ts) \<subseteq> set (get_states Gridworld)"
    using outcomes_in_states [OF o assms(1)] by (simp add: consolidate_keys)
  moreover have "sum_list (map snd (consolidate [] ts)) = 1"
    by (simp add: sum_consolidate p PROB_INTEND_def PROB_SLIP_LEFT_def PROB_SLIP_RIGHT_def)
  ultimately show ?thesis using g by auto
qed

lemma transitions_origin_north:
  "get_transitions Gridworld (0, 0) ''North'' = Inr [((0, 0), 9 / 10), ((0, 1), 1 / 10)]"
  by (simp add: get_transitions_def Gridworld_def GOAL_STATE_def TRAP_STATE_def dict_item_def
      calculate_next_state_def ACTIONS_def Let_def GRID_HEIGHT_def GRID_WIDTH_def WALL_STATES_def
      dict_get_def PROB_INTEND_def PROB_SLIP_LEFT_def PROB_SLIP_RIGHT_def)

text \<open>
  C2. For every state that is not terminal and every action in \<open>get_actions\<close> of the state,
  \<open>get_transitions\<close> returns a list in which no successor state occurs twice; its successor
  states are exactly the destinations of the three outcomes (the intended move and the two
  slips, each as \<open>calculate_next_state\<close> resolves it); the probability returned with a
  successor is the sum of the probabilities of the outcomes that end in it; and the
  returned probabilities sum to 1 within \<open>10\<^sup>-\<^sup>9\<close>.
\<close>

theorem get_transitions_consolidated:
  assumes "s \<notin> terminal_states Gridworld" and "a \<in> set (get_actions Gridworld s)"
  shows "\<exists>l r s0 s1 s2 ts.
           dict_item (action_slips Gridworld) a = Inr (l, r)
         \<and> calculate_next_state Gridworld s a = Inr s0
         \<and> calculate_next_state Gridworld s l = Inr s1
         \<and> calculate_next_state Gridworld s r = Inr s2
         \<and> get_transitions Gridworld s a = Inr ts
         \<and> distinct (map fst ts)
         \<and> fst ` set ts = {s0, s1, s2}
         \<and> (\<forall>sp \<in> set ts.
               snd sp = outcome_mass
                          [(PROB_INTEND, s0), (PROB_SLIP_LEFT, s1), (PROB_SLIP_RIGHT, s2)] (fst sp))
         \<and> \<bar>sum_list (map snd ts) - 1\<bar> \<le> 1 / 10 ^ 9"
proof -
  from assms have a: "a \<in> fst ` set ACTIONS" by (simp add: get_actions_def)
  from slips_known [OF a] obtain l r where lr: "dict_item (action_slips Gridworld) a = Inr (l, r)"
    "l \<in> fst ` set ACTIONS" "r \<in> fst ` set ACTIONS"
    by blast
  let ?pas = "[(PROB_INTEND, a), (PROB_SLIP_LEFT, l), (PROB_SLIP_RIGHT, r)]"
  from a lr have "\<forall>pa \<in> set ?pas. snd pa \<in> fst ` set ACTIONS" by simp
  from outcomes_known [OF this] obtain outs where o: "outcomes Gridworld s ?pas = Inr outs"
    by blast
  from outcomes_three [OF o] obtain s0 s1 s2
    where n: "calculate_next_state Gridworld s a = Inr s0"
      "calculate_next_state Gridworld s l = Inr s1"
      "calculate_next_state Gridworld s r = Inr s2"
      and outs: "outs = [(PROB_INTEND, s0), (PROB_SLIP_LEFT, s1), (PROB_SLIP_RIGHT, s2)]"
    by blast
  let ?ts = "consolidate [] outs"
  have g: "get_transitions Gridworld s a = Inr ?ts"
    using assms(1) lr(1) o by (simp add: get_transitions_def)
  have d: "distinct (map fst ?ts)"
    by (rule distinct_consolidate) simp
  have "fst ` set ?ts = snd ` set outs"
    by (simp add: consolidate_keys)
  also have "\<dots> = {s0, s1, s2}"
    by (simp add: outs)
  finally have k: "fst ` set ?ts = {s0, s1, s2}" .
  have m: "\<forall>sp \<in> set ?ts. snd sp = outcome_mass outs (fst sp)"
    using consolidate_mass [of _ _ outs] by auto
  have "sum_list (map snd ?ts) = sum_list (map fst outs)"
    by (simp add: sum_consolidate)
  also have "\<dots> = 1"
    by (simp add: outs PROB_INTEND_def PROB_SLIP_LEFT_def PROB_SLIP_RIGHT_def)
  finally have u: "\<bar>sum_list (map snd ?ts) - 1\<bar> \<le> 1 / 10 ^ 9" by simp
  from lr(1) n g d k m u show ?thesis unfolding outs by blast
qed

theorem get_transitions_consolidated_witness:
  "(0, 0) \<notin> terminal_states Gridworld \<and> ''North'' \<in> set (get_actions Gridworld (0, 0))
   \<and> get_transitions Gridworld (0, 0) ''North'' = Inr [((0, 0), 9 / 10), ((0, 1), 1 / 10)]
   \<and> (\<exists>l r s0 s1 s2 ts.
           dict_item (action_slips Gridworld) ''North'' = Inr (l, r)
         \<and> calculate_next_state Gridworld (0, 0) ''North'' = Inr s0
         \<and> calculate_next_state Gridworld (0, 0) l = Inr s1
         \<and> calculate_next_state Gridworld (0, 0) r = Inr s2
         \<and> get_transitions Gridworld (0, 0) ''North'' = Inr ts
         \<and> distinct (map fst ts)
         \<and> fst ` set ts = {s0, s1, s2}
         \<and> (\<forall>sp \<in> set ts.
               snd sp = outcome_mass
                          [(PROB_INTEND, s0), (PROB_SLIP_LEFT, s1), (PROB_SLIP_RIGHT, s2)] (fst sp))
         \<and> \<bar>sum_list (map snd ts) - 1\<bar> \<le> 1 / 10 ^ 9)"
proof -
  have h1: "(0, 0) \<notin> terminal_states Gridworld"
    by (rule origin_not_terminal)
  have h2: "''North'' \<in> set (get_actions Gridworld (0, 0))"
    using h1 by (simp add: get_actions_def ACTIONS_def)
  from h1 h2 transitions_origin_north get_transitions_consolidated [OF h1 h2]
  show ?thesis by (intro conjI) assumption+
qed

text \<open>
  C7. For every state that is not terminal and every action that is not in \<open>get_actions\<close>
  of the state, \<open>get_transitions\<close> raises: the subscript \<^verbatim>\<open>self._action_slips[action]\<close> fails
  with \<^verbatim>\<open>KeyError\<close>.
\<close>

theorem get_transitions_illegal_action_raises:
  "s \<notin> terminal_states Gridworld \<Longrightarrow> a \<notin> set (get_actions Gridworld s) \<Longrightarrow>
   get_transitions Gridworld s a = Inl KeyError"
  by (auto simp: get_transitions_def get_actions_def Gridworld_def ACTIONS_def dict_item_def)

theorem get_transitions_illegal_action_raises_witness:
  "(0, 0) \<notin> terminal_states Gridworld \<and> ''Up'' \<notin> set (get_actions Gridworld (0, 0)) \<and>
   get_transitions Gridworld (0, 0) ''Up'' = Inl KeyError"
proof -
  have h1: "(0, 0) \<notin> terminal_states Gridworld"
    by (rule origin_not_terminal)
  have h2: "''Up'' \<notin> set (get_actions Gridworld (0, 0))"
    using h1 by (simp add: get_actions_def ACTIONS_def)
  from h1 h2 get_transitions_illegal_action_raises [OF h1 h2] show ?thesis by blast
qed

section \<open>The repository's environment under the solver\<close>

text \<open>
  The solver binds \<^verbatim>\<open>prob\<close> to the state and \<^verbatim>\<open>next_state\<close> to the float of each element, and
  the float is no key of the utility table.
\<close>

lemma gridworld_q_values_raise:
  assumes "env self = gridworld_env Gridworld"
  shows "get_q_values self (0, 0) U = Inl KeyError"
proof -
  have a: "env_actions (env self) (0, 0) = ''North'' # map fst (tl ACTIONS)"
    using origin_not_terminal by (simp add: assms gridworld_env_def get_actions_def ACTIONS_def)
  have t: "env_transitions (env self) (0, 0) ''North'' =
             Inr [(PyState (0, 0), PyFloat (9 / 10)), (PyState (0, 1), PyFloat (1 / 10))]"
    by (simp add: assms gridworld_env_def transitions_origin_north)
  show ?thesis
    by (simp add: get_q_values_def a t utilities_item_def)
qed

lemma gridworld_sweep_raises:
  assumes "env self = gridworld_env Gridworld"
  shows "value_iteration_sweep self = Inl KeyError"
proof -
  have s: "env_states (env self) = (0, 0) # tl (get_states Gridworld)"
    by (simp add: assms gridworld_env_def gridworld_states)
  have t: "(0, 0) \<notin> env_terminal_states (env self)"
    using origin_not_terminal by (simp add: assms gridworld_env_def)
  show ?thesis
    by (simp add: value_iteration_sweep_def s t gridworld_q_values_raise [OF assms])
qed

lemma gridworld_solve_raises:
  assumes "env self = gridworld_env Gridworld"
  shows "solve_value_iteration self = Some (Inl KeyError)"
  by (simp add: solve_value_iteration_def value_iteration_loop.simps [of self]
      gridworld_sweep_raises [OF assms])

text \<open>
  The outcome does not depend on the order in which Python iterates the set of states: a
  terminal state is passed over, and the first state that is not terminal raises.
\<close>

lemma dict_set_head: "d \<noteq> [] \<Longrightarrow> \<exists>v d'. dict_set d k w = (fst (hd d), v) # d'"
  by (cases d) auto

lemma consolidate_head:
  "d \<noteq> [] \<Longrightarrow> \<exists>v d'. consolidate d ts = (fst (hd d), v) # d'"
proof (induction d ts rule: consolidate.induct)
  case (1 consolidated)
  then show ?case by (cases consolidated) auto
next
  case (2 consolidated prob s_prime rest)
  let ?d = "dict_set consolidated s_prime (dict_get consolidated s_prime 0 + prob)"
  from dict_set_head [OF "2.prems"] obtain v d' where d: "?d = (fst (hd consolidated), v) # d'"
    by blast
  then have "?d \<noteq> []" by simp
  from "2.IH" [OF this] d show ?case by simp
qed

lemma north_first:
  "s \<notin> terminal_states Gridworld \<Longrightarrow> get_actions Gridworld s = ''North'' # map fst (tl ACTIONS)"
  by (simp add: get_actions_def ACTIONS_def)

lemma transitions_north_head:
  assumes "s \<notin> terminal_states Gridworld"
  shows "\<exists>s1 v d'. get_transitions Gridworld s ''North'' = Inr ((s1, v) # d')"
proof -
  have n: "''North'' \<in> set (get_actions Gridworld s)"
    by (simp add: north_first [OF assms])
  obtain l r ts
    where "outcomes Gridworld s
             [(PROB_INTEND, ''North''), (PROB_SLIP_LEFT, l), (PROB_SLIP_RIGHT, r)] = Inr ts"
      and p: "map fst ts = [PROB_INTEND, PROB_SLIP_LEFT, PROB_SLIP_RIGHT]"
      and g: "get_transitions Gridworld s ''North'' = Inr (consolidate [] ts)"
    by (rule get_transitions_legal [OF assms n])
  from p obtain prob s1 rest where ts: "ts = (prob, s1) # rest" by (cases ts) auto
  have "[(s1, dict_get [] s1 0 + prob)] \<noteq> []" by simp
  from consolidate_head [OF this, of rest]
  obtain v d' where c: "consolidate [(s1, dict_get [] s1 0 + prob)] rest = (s1, v) # d'"
    by auto
  have "consolidate [] ts = (s1, v) # d'"
    unfolding ts using c by simp
  with g show ?thesis by simp
qed

lemma gridworld_q_values_raise_everywhere:
  assumes "env_actions (env self) = get_actions Gridworld"
    and "env_transitions (env self) = env_transitions (gridworld_env Gridworld)"
    and "s \<notin> terminal_states Gridworld"
  shows "get_q_values self s U = Inl KeyError"
proof -
  from transitions_north_head [OF assms(3)] obtain s1 v d'
    where g: "get_transitions Gridworld s ''North'' = Inr ((s1, v) # d')"
    by auto
  have t: "env_transitions (env self) s ''North'' =
      Inr ((PyState s1, PyFloat v) # map (\<lambda>(s_prime, prob). (PyState s_prime, PyFloat prob)) d')"
    by (simp add: assms(2) gridworld_env_def g)
  have a: "env_actions (env self) s = ''North'' # map fst (tl ACTIONS)"
    by (simp add: assms(1) north_first [OF assms(3)])
  show ?thesis
    unfolding get_q_values_def a by (simp add: t utilities_item_def)
qed

lemma gridworld_states_raise_in_any_order:
  assumes "env_actions (env self) = get_actions Gridworld"
    and "env_transitions (env self) = env_transitions (gridworld_env Gridworld)"
    and "env_terminal_states (env self) = terminal_states Gridworld"
    and "\<exists>s \<in> set xs. s \<notin> terminal_states Gridworld"
  shows "value_iteration_states self (nu, d) xs = Inl KeyError"
  using assms(4)
proof (induction xs arbitrary: nu d)
  case Nil
  then show ?case by simp
next
  case (Cons x xs)
  show ?case
  proof (cases "x \<in> terminal_states Gridworld")
    case True
    with Cons.prems have "\<exists>s \<in> set xs. s \<notin> terminal_states Gridworld" by auto
    from Cons.IH [OF this] True show ?thesis by (simp add: assms(3))
  next
    case False
    with gridworld_q_values_raise_everywhere [OF assms(1,2) False] show ?thesis
      by (simp add: assms(3))
  qed
qed

lemma gridworld_solve_raises_in_any_order:
  assumes "env self = (gridworld_env Gridworld)\<lparr>env_states := xs\<rparr>"
    and "set xs = set (get_states Gridworld)"
  shows "solve_value_iteration self = Some (Inl KeyError)"
proof -
  have "(0, 0) \<in> set xs" by (simp add: assms(2) gridworld_states)
  with origin_not_terminal have n: "\<exists>s \<in> set xs. s \<notin> terminal_states Gridworld" by blast
  have e: "env_actions (env self) = get_actions Gridworld"
    "env_transitions (env self) = env_transitions (gridworld_env Gridworld)"
    "env_terminal_states (env self) = terminal_states Gridworld"
    "env_states (env self) = xs"
    by (simp_all add: assms(1) gridworld_env_def)
  have "value_iteration_sweep self = Inl KeyError"
    unfolding value_iteration_sweep_def e(4)
    by (rule gridworld_states_raise_in_any_order [OF e(1-3) n])
  then show ?thesis
    by (simp add: solve_value_iteration_def value_iteration_loop.simps [of self])
qed

text \<open>
  C10. The elements that \<open>get_transitions\<close> returns are (next state, probability), not
  (probability, next state) as its docstring says and as the solver unpacks them. At the
  state (0, 0) and the action North the list is [((0, 0), 0.9), ((0, 1), 0.1)]; the solver's
  lookup \<^verbatim>\<open>utilities[next_state]\<close> is then made with the float 0.9 and raises \<^verbatim>\<open>KeyError\<close>, so
  Value Iteration with the default parameters ends with this exception in its first sweep.
\<close>

theorem gridworld_lookup_fails:
  "get_transitions Gridworld (0, 0) ''North'' = Inr [((0, 0), 9 / 10), ((0, 1), 1 / 10)]
   \<and> main_value_iteration DEFAULT_GAMMA DEFAULT_EPSILON = Some (Inl KeyError)"
  by (simp add: transitions_origin_north main_value_iteration_def MDPSolver_init_def
      gridworld_solve_raises)

section \<open>Construction of the solver\<close>

text \<open>
  C5 (the claim as written). It says that a discount factor outside [0, 1) is rejected at
  construction. With \<open>gamma = 2\<close> the constructor returns a solver that holds 2.
\<close>

theorem MDPSolver_init_rejects_counterexample:
  "MDPSolver_init (gridworld_env Gridworld) 2 DEFAULT_EPSILON =
     Inr \<lparr> env = gridworld_env Gridworld, gamma = 2, epsilon = DEFAULT_EPSILON,
           utilities = zero_utilities (gridworld_env Gridworld) \<rparr>"
  by (simp add: MDPSolver_init_def)

text \<open>
  C5 (amended). Construction validates nothing: for every model, every discount factor and
  every threshold it succeeds and stores the three values as given, with all utilities 0.
\<close>

theorem MDPSolver_init_accepts_every_gamma:
  "MDPSolver_init environment g eps =
     Inr \<lparr> env = environment, gamma = g, epsilon = eps, utilities = zero_utilities environment \<rparr>"
  by (simp add: MDPSolver_init_def)

section \<open>The renderers\<close>

text \<open>
  C9. For every state tuple and every grid object, the comparison of the tuple with the set
  of terminal states is false, so no cell is rendered by the terminal branch: the utility
  renderer never takes the terminal utility branch, and the policy renderer never produces
  the goal label, the trap label or the \<^verbatim>\<open>AttributeError\<close> of that branch.
\<close>

theorem terminal_comparison_never_holds:
  "\<not> py_eq (Tuple state) (Set (terminal_states g))
   \<and> (\<forall>u. utilities_grid_cell U g state \<noteq> TerminalUtility u)
   \<and> policy_grid_cell policy g state \<noteq> Inr GoalText
   \<and> policy_grid_cell policy g state \<noteq> Inr TrapText
   \<and> policy_grid_cell policy g state \<noteq> Inl AttributeError"
  by (simp add: utilities_grid_cell_def policy_grid_cell_def split: option.split)

section \<open>The sweep of Value Iteration\<close>

subsection \<open>Action values\<close>

lemma expected_utility_Inr:
  "expected_utility U acc ts = Inr x \<Longrightarrow>
   list_all (readable U) ts \<and> x = acc + weighted_sum_spec U ts"
proof (induction U acc ts rule: expected_utility.induct)
  case (1 U acc)
  then show ?case by (simp add: weighted_sum_spec_def)
next
  case (2 U acc prob next_state rest)
  from "2.prems" obtain u where u: "utilities_item U next_state = Inr u"
    by (cases "utilities_item U next_state") auto
  from "2.prems" u obtain y where y: "py_mul prob u = Inr y"
    by (cases "py_mul prob u") auto
  from u obtain s' where s': "next_state = PyState s'" "U s' = Some u"
    by (cases next_state) (auto simp: utilities_item_def split: option.splits)
  from y obtain p where p: "prob = PyFloat p" "y = p * u"
    by (cases prob) (auto simp: py_mul_def)
  from "2.prems" u y have "expected_utility U (acc + y) rest = Inr x" by simp
  from "2.IH" [OF u y this] have "list_all (readable U) rest" "x = acc + y + weighted_sum_spec U rest"
    by simp_all
  then show ?case
    by (simp add: s' p weighted_sum_spec_def utility_of_def)
qed

lemma expected_utility_readable:
  "list_all (readable U) ts \<Longrightarrow> expected_utility U acc ts = Inr (acc + weighted_sum_spec U ts)"
proof (induction ts arbitrary: acc)
  case Nil
  then show ?case by (simp add: weighted_sum_spec_def)
next
  case (Cons t ts)
  obtain prob next_state where t: "t = (prob, next_state)" by (cases t)
  from Cons.prems t have r: "readable U (prob, next_state)" by simp
  then obtain p s' u where f: "prob = PyFloat p" "next_state = PyState s'" "U s' = Some u"
    by (cases "(U, (prob, next_state))" rule: readable.cases) auto
  from Cons.prems have "list_all (readable U) ts" by simp
  from Cons.IH [OF this] show ?case
    by (simp add: t f utilities_item_def py_mul_def weighted_sum_spec_def utility_of_def)
qed

lemma q_values_loop_Inr:
  assumes "q_values_loop e s U q as = Inr qs"
  shows "(\<forall>a \<in> set as. \<exists>ts. env_transitions e s a = Inr ts \<and> list_all (readable U) ts)
       \<and> fst ` set qs = fst ` set q \<union> set as
       \<and> ((\<forall>kv \<in> set q. snd kv = action_value_spec e U s (fst kv))
            \<longrightarrow> (\<forall>kv \<in> set qs. snd kv = action_value_spec e U s (fst kv)))"
  using assms
proof (induction e s U q as rule: q_values_loop.induct)
  case (1 e state U q_values)
  then show ?case by simp
next
  case (2 e state U q_values action rest)
  from "2.prems" obtain ts where ts: "env_transitions e state action = Inr ts"
    by (cases "env_transitions e state action") auto
  from "2.prems" ts obtain eu where eu: "expected_utility U 0 ts = Inr eu"
    by (cases "expected_utility U 0 ts") auto
  from expected_utility_Inr [OF eu] have rd: "list_all (readable U) ts"
    and v: "eu = action_value_spec e U state action"
    by (simp_all add: action_value_spec_def ts)
  from "2.prems" ts eu have "q_values_loop e state U (dict_set q_values action eu) rest = Inr qs"
    by simp
  from "2.IH" [OF ts eu this]
  have ih1: "\<forall>a \<in> set rest. \<exists>ts. env_transitions e state a = Inr ts \<and> list_all (readable U) ts"
    and ih2: "fst ` set qs = fst ` set (dict_set q_values action eu) \<union> set rest"
    and ih3: "(\<forall>kv \<in> set (dict_set q_values action eu). snd kv = action_value_spec e U state (fst kv))
               \<longrightarrow> (\<forall>kv \<in> set qs. snd kv = action_value_spec e U state (fst kv))"
    by blast+
  have a: "\<forall>a \<in> set (action # rest). \<exists>ts. env_transitions e state a = Inr ts \<and> list_all (readable U) ts"
    using ih1 ts rd by simp
  have b: "fst ` set qs = fst ` set q_values \<union> set (action # rest)"
    using ih2 by (simp add: fst_set_dict_set)
  have c: "(\<forall>kv \<in> set q_values. snd kv = action_value_spec e U state (fst kv))
            \<longrightarrow> (\<forall>kv \<in> set qs. snd kv = action_value_spec e U state (fst kv))"
  proof
    assume g: "\<forall>kv \<in> set q_values. snd kv = action_value_spec e U state (fst kv)"
    have "\<forall>kv \<in> set (dict_set q_values action eu). snd kv = action_value_spec e U state (fst kv)"
      using g v set_dict_set_subset [of q_values action eu] by auto
    with ih3 show "\<forall>kv \<in> set qs. snd kv = action_value_spec e U state (fst kv)" by blast
  qed
  from a b c show ?case by blast
qed

lemma foldl_max_Max: "foldl max v vs = Max (set (v # vs))"
  for v :: real
proof (induction vs arbitrary: v)
  case Nil
  then show ?case by simp
next
  case (Cons w vs)
  have "foldl max v (w # vs) = Max (set (max v w # vs))" using Cons.IH by simp
  also have "\<dots> = Max (set (v # w # vs))"
    by (cases "vs = []") (simp_all add: Max_insert max.assoc)
  finally show ?case .
qed

lemma max_q_of_Max: "max_q_of qs = (if qs = [] then 0 else Max (snd ` set qs))"
  by (cases qs) (simp_all add: max_q_of_def foldl_max_Max del: Max_insert set_simps, simp)

lemma get_q_values_Inr:
  assumes "get_q_values self s U = Inr qs"
  shows "(\<forall>a \<in> set (env_actions (env self) s).
            \<exists>ts. env_transitions (env self) s a = Inr ts \<and> list_all (readable U) ts)"
    and "max_q_of qs =
           (if env_actions (env self) s = [] then 0
            else Max (action_value_spec (env self) U s ` set (env_actions (env self) s)))"
    and "qs = [] \<longleftrightarrow> env_actions (env self) s = []"
proof -
  let ?as = "env_actions (env self) s"
  from assms have l: "q_values_loop (env self) s U [] ?as = Inr qs"
    by (simp add: get_q_values_def)
  from q_values_loop_Inr [OF l]
  have a: "\<forall>a \<in> set ?as. \<exists>ts. env_transitions (env self) s a = Inr ts \<and> list_all (readable U) ts"
    and b: "fst ` set qs = set ?as"
    and c: "\<forall>kv \<in> set qs. snd kv = action_value_spec (env self) U s (fst kv)"
    by simp_all
  from a show "\<forall>a \<in> set ?as. \<exists>ts. env_transitions (env self) s a = Inr ts \<and> list_all (readable U) ts" .
  from b show e: "qs = [] \<longleftrightarrow> ?as = []" by (metis image_is_empty set_empty)
  have "snd ` set qs = action_value_spec (env self) U s ` fst ` set qs"
    using c by (auto simp: image_iff) 
  then have "snd ` set qs = action_value_spec (env self) U s ` set ?as" by (simp add: b)
  then show "max_q_of qs = (if ?as = [] then 0 else Max (action_value_spec (env self) U s ` set ?as))"
    using e by (simp add: max_q_of_Max)
qed

subsection \<open>One sweep\<close>

lemma Max_insert_max:
  fixes a b :: real
  assumes "finite D"
  shows "Max (insert (max a b) D) = Max (insert a (insert b D))"
proof (cases "D = {}")
  case True
  then show ?thesis by simp
next
  case False
  with assms show ?thesis by (simp add: max.assoc)
qed

lemma value_iteration_states_Inr:
  assumes "value_iteration_states self (nu, d) xs = Inr (U', delta)"
  shows "U' = (\<lambda>s. if s \<in> set xs
                    then Some (bellman_backup_spec (env self) (gamma self) (utilities self) s)
                    else nu s)
       \<and> delta = Max (insert d ((\<lambda>s. \<bar>bellman_backup_spec (env self) (gamma self) (utilities self) s
                                        - utility_of (utilities self) s\<bar>)
                                  ` {s \<in> set xs. s \<notin> env_terminal_states (env self)}))
       \<and> (\<forall>s \<in> set xs. s \<notin> env_terminal_states (env self) \<longrightarrow>
             utilities self s \<noteq> None \<and>
             (\<forall>a \<in> set (env_actions (env self) s).
                \<exists>ts. env_transitions (env self) s a = Inr ts \<and> list_all (readable (utilities self)) ts))"
  using assms
proof (induction xs arbitrary: nu d)
  case Nil
  then show ?case by simp
next
  case (Cons state rest)
  let ?B = "bellman_backup_spec (env self) (gamma self) (utilities self)"
  let ?f = "\<lambda>s. \<bar>?B s - utility_of (utilities self) s\<bar>"
  let ?T = "env_terminal_states (env self)"
  let ?ok = "\<lambda>s. utilities self s \<noteq> None \<and>
             (\<forall>a \<in> set (env_actions (env self) s).
                \<exists>ts. env_transitions (env self) s a = Inr ts \<and> list_all (readable (utilities self)) ts)"
  show ?case
  proof (cases "state \<in> ?T")
    case True
    then have b: "?B state = env_reward (env self) state"
      by (simp add: bellman_backup_spec_def)
    from Cons.prems True
    have "value_iteration_states self (nu(state \<mapsto> ?B state), d) rest = Inr (U', delta)"
      by (simp add: b)
    from Cons.IH [OF this]
    have u: "U' = (\<lambda>s. if s \<in> set rest then Some (?B s) else (nu(state \<mapsto> ?B state)) s)"
      and dl: "delta = Max (insert d (?f ` {s \<in> set rest. s \<notin> ?T}))"
      and ok: "\<forall>s \<in> set rest. s \<notin> ?T \<longrightarrow> ?ok s"
      by blast+
    have s: "{s \<in> set (state # rest). s \<notin> ?T} = {s \<in> set rest. s \<notin> ?T}"
      using True by auto
    have "U' = (\<lambda>s. if s \<in> set (state # rest) then Some (?B s) else nu s)"
      unfolding u by (rule ext) simp
    moreover have "delta = Max (insert d (?f ` {s \<in> set (state # rest). s \<notin> ?T}))"
      unfolding s by (rule dl)
    moreover have "\<forall>s \<in> set (state # rest). s \<notin> ?T \<longrightarrow> ?ok s"
      using ok True by simp
    ultimately show ?thesis by blast
  next
    case False
    from Cons.prems False obtain q where q: "get_q_values self state (utilities self) = Inr q"
      by (cases "get_q_values self state (utilities self)") auto
    from Cons.prems False q obtain old where old: "utilities self state = Some old"
      by (cases "utilities self state") (auto simp: Let_def)
    from get_q_values_Inr [OF q]
    have rd: "\<forall>a \<in> set (env_actions (env self) state).
                \<exists>ts. env_transitions (env self) state a = Inr ts \<and> list_all (readable (utilities self)) ts"
      and mq: "max_q_of q =
           (if env_actions (env self) state = [] then 0
            else Max (action_value_spec (env self) (utilities self) state ` set (env_actions (env self) state)))"
      by blast+
    have b: "env_reward (env self) state + gamma self * max_q_of q = ?B state"
      using False by (simp add: bellman_backup_spec_def mq)
    have o: "utility_of (utilities self) state = old"
      by (simp add: utility_of_def old)
    from Cons.prems False q old
    have "value_iteration_states self (nu(state \<mapsto> ?B state), max d (?f state)) rest = Inr (U', delta)"
      by (simp add: Let_def b o)
    from Cons.IH [OF this]
    have u: "U' = (\<lambda>s. if s \<in> set rest then Some (?B s) else (nu(state \<mapsto> ?B state)) s)"
      and dl: "delta = Max (insert (max d (?f state)) (?f ` {s \<in> set rest. s \<notin> ?T}))"
      and ok: "\<forall>s \<in> set rest. s \<notin> ?T \<longrightarrow> ?ok s"
      by blast+
    have s: "{s \<in> set (state # rest). s \<notin> ?T} = insert state {s \<in> set rest. s \<notin> ?T}"
      using False by auto
    have "U' = (\<lambda>s. if s \<in> set (state # rest) then Some (?B s) else nu s)"
      unfolding u by (rule ext) simp
    moreover have "delta = Max (insert d (?f ` {s \<in> set (state # rest). s \<notin> ?T}))"
      unfolding s dl by (simp add: Max_insert_max del: Max_insert)
    moreover have "\<forall>s \<in> set (state # rest). s \<notin> ?T \<longrightarrow> ?ok s"
      using ok rd old by simp
    ultimately show ?thesis by blast
  qed
qed

lemma value_iteration_sweep_Inr:
  assumes "value_iteration_sweep self = Inr (U', delta)"
  shows "U' = (\<lambda>s. if s \<in> set (env_states (env self))
                    then Some (bellman_backup_spec (env self) (gamma self) (utilities self) s)
                    else utilities self s)"
    and "delta = Max (insert 0 ((\<lambda>s. \<bar>bellman_backup_spec (env self) (gamma self) (utilities self) s
                                        - utility_of (utilities self) s\<bar>)
                                  ` {s \<in> set (env_states (env self)). s \<notin> env_terminal_states (env self)}))"
    and "\<forall>s \<in> set (env_states (env self)). s \<notin> env_terminal_states (env self) \<longrightarrow>
             utilities self s \<noteq> None \<and>
             (\<forall>a \<in> set (env_actions (env self) s).
                \<exists>ts. env_transitions (env self) s a = Inr ts \<and> list_all (readable (utilities self)) ts)"
  using value_iteration_states_Inr [of self "utilities self" 0 "env_states (env self)" U' delta] assms
  unfolding value_iteration_sweep_def by blast+

subsection \<open>Sweeps on the small model\<close>

lemma small_env_simps:
  "env_states small_env = [0, 1, 2]"
  "env_terminal_states small_env = {1}"
  "env_actions small_env s = (if s = 0 then [''go''] else [])"
  "env_reward small_env s = (if s = 1 then 1 else - (4 / 100))"
  "env_transitions small_env s a =
     (if s = 0 \<and> a = ''go''
      then Inr [(PyFloat (1 / 2), PyState 1), (PyFloat (1 / 2), PyState 2)]
      else Inr [])"
  by (simp_all add: small_env_def)

lemma small_first_sweep:
  "value_iteration_sweep (small_solver g eps) =
     Inr ((zero_utilities small_env)(0 \<mapsto> - (1 / 25), 1 \<mapsto> 1, 2 \<mapsto> - (1 / 25)), 1 / 25)"
  by (simp add: value_iteration_sweep_def small_solver_def small_env_simps zero_utilities_def
      get_q_values_def utilities_item_def py_mul_def max_q_of_def Let_def)

lemma small_second_sweep:
  "value_iteration_sweep
     ((small_solver (1 / 2) (1 / 100))\<lparr>utilities := [0 \<mapsto> - (1 / 25), 1 \<mapsto> 1, 2 \<mapsto> - (1 / 25)]\<rparr>) =
     Inr ([0 \<mapsto> 1 / 5, 1 \<mapsto> 1, 2 \<mapsto> - (1 / 25)], 6 / 25)"
proof -
  have "[0 \<mapsto> - (1 / 25), 1 \<mapsto> 1, 2 \<mapsto> - (1 / 25)](0 \<mapsto> 1 / 5, 1 \<mapsto> 1, 2 \<mapsto> - (1 / 25))
        = [(0::int) \<mapsto> 1 / 5, 1 \<mapsto> 1, 2 \<mapsto> - (1 / 25 :: real)]"
    by (rule ext) simp
  then show ?thesis
    by (simp add: value_iteration_sweep_def small_solver_def small_env_simps
      get_q_values_def utilities_item_def py_mul_def max_q_of_def Let_def)
qed

subsection \<open>The update rule\<close>

text \<open>
  C1. In every sweep of Value Iteration that completes, the new utility of every state of
  the model is the Bellman backup of the specification, computed from the table the sweep
  started with (\<open>utilities self\<close>, which the loop never assigns): for a terminal state the
  reward, for any other state the reward plus gamma times the maximum over the legal
  actions of the probability-weighted sum of the successors' old utilities, with no reward
  term inside the sum. For a state that is not terminal every transition list the sweep
  read was a list of (probability, next state) pairs whose next states have an entry in
  the old table, so nothing in the formula stands for a failed read.
\<close>

theorem value_iteration_sweep_is_bellman_backup:
  assumes "value_iteration_sweep self = Inr (U', delta)"
    and "s \<in> set (env_states (env self))"
  shows "U' s = Some (bellman_backup_spec (env self) (gamma self) (utilities self) s)
       \<and> (s \<notin> env_terminal_states (env self) \<longrightarrow>
            (\<forall>a \<in> set (env_actions (env self) s).
               \<exists>ts. env_transitions (env self) s a = Inr ts
                    \<and> list_all (readable (utilities self)) ts))"
  using value_iteration_sweep_Inr(1,3) [OF assms(1)] assms(2) by simp

theorem value_iteration_sweep_is_bellman_backup_witness:
  "value_iteration_sweep
     ((small_solver (1 / 2) (1 / 100))\<lparr>utilities := [0 \<mapsto> - (1 / 25), 1 \<mapsto> 1, 2 \<mapsto> - (1 / 25)]\<rparr>) =
     Inr ([0 \<mapsto> 1 / 5, 1 \<mapsto> 1, 2 \<mapsto> - (1 / 25)], 6 / 25)
   \<and> (0::int) \<in> set (env_states small_env)
   \<and> [0 \<mapsto> 1 / 5, 1 \<mapsto> 1, 2 \<mapsto> - (1 / 25)] (0::int) =
       Some (bellman_backup_spec small_env (1 / 2) [0 \<mapsto> - (1 / 25), 1 \<mapsto> 1, 2 \<mapsto> - (1 / 25)] 0)
   \<and> bellman_backup_spec small_env (1 / 2) [0 \<mapsto> - (1 / 25), 1 \<mapsto> 1, 2 \<mapsto> - (1 / 25)] 0 = 1 / 5"
proof -
  let ?S = "(small_solver (1 / 2) (1 / 100))\<lparr>utilities := [0 \<mapsto> - (1 / 25), 1 \<mapsto> 1, 2 \<mapsto> - (1 / 25)]\<rparr>"
  have h1: "value_iteration_sweep ?S = Inr ([0 \<mapsto> 1 / 5, 1 \<mapsto> 1, 2 \<mapsto> - (1 / 25)], 6 / 25)"
    by (rule small_second_sweep)
  have h2: "0 \<in> set (env_states (env ?S))"
    by (simp add: small_solver_def small_env_simps)
  from value_iteration_sweep_is_bellman_backup [OF h1 h2] h1 h2 show ?thesis
    by (simp add: small_solver_def)
qed

subsection \<open>The tracked change\<close>

text \<open>
  What the loop computes as \<^verbatim>\<open>delta\<close>: the terminal branch ends with \<^verbatim>\<open>continue\<close> before
  \<^verbatim>\<open>delta\<close> is updated, so only the states that are not terminal are compared.
\<close>

lemma value_iteration_delta:
  assumes "value_iteration_sweep self = Inr (U', delta)"
  shows "delta = max_abs_difference_spec
                   {s \<in> set (env_states (env self)). s \<notin> env_terminal_states (env self)}
                   U' (utilities self)"
proof -
  let ?N = "{s \<in> set (env_states (env self)). s \<notin> env_terminal_states (env self)}"
  let ?B = "bellman_backup_spec (env self) (gamma self) (utilities self)"
  have "\<forall>s \<in> ?N. utility_of U' s = ?B s"
    by (simp add: value_iteration_sweep_Inr(1) [OF assms] utility_of_def)
  then have "(\<lambda>s. \<bar>utility_of U' s - utility_of (utilities self) s\<bar>) ` ?N
           = (\<lambda>s. \<bar>?B s - utility_of (utilities self) s\<bar>) ` ?N"
    by (intro image_cong) simp_all
  then show ?thesis
    unfolding max_abs_difference_spec_def
    using value_iteration_sweep_Inr(2) [OF assms] by simp
qed

lemma small_loop_one_sweep:
  "value_iteration_loop (small_solver g (1 / 20)) =
     Some (Inr ((small_solver g (1 / 20))
                  \<lparr>utilities := (zero_utilities small_env)(0 \<mapsto> - (1 / 25), 1 \<mapsto> 1, 2 \<mapsto> - (1 / 25))\<rparr>))"
proof -
  have e: "epsilon (small_solver g (1 / 20)) = 1 / 20" by (simp add: small_solver_def)
  show ?thesis
    by (subst value_iteration_loop.simps) (simp add: small_first_sweep e)
qed

text \<open>
  C6. The claim, like the docstring of \<^verbatim>\<open>solve_value_iteration\<close> ("Stop when
  max |U_{i+1}(s) - U_i(s)| < epsilon") and the comment at the update ("the maximum change
  in utility for this iteration"), takes the maximum over all states. The code leaves the
  terminal states out. On the small model with \<open>gamma = 1/2\<close> and \<open>epsilon = 1/20\<close> the first
  sweep moves the terminal state 1 from 0 to 1, so the maximum absolute difference over all
  states is 1, but the sweep's \<^verbatim>\<open>delta\<close> is 1/25; the loop therefore returns after this one
  sweep, with the utility - 1/25 at state 0, whose backup from the returned table is 1/5.
\<close>

theorem delta_skips_terminal_states:
  "value_iteration_sweep (small_solver (1 / 2) (1 / 20)) =
     Inr ((zero_utilities small_env)(0 \<mapsto> - (1 / 25), 1 \<mapsto> 1, 2 \<mapsto> - (1 / 25)), 1 / 25)
   \<and> max_abs_difference_spec (set (env_states small_env))
        ((zero_utilities small_env)(0 \<mapsto> - (1 / 25), 1 \<mapsto> 1, 2 \<mapsto> - (1 / 25)))
        (utilities (small_solver (1 / 2) (1 / 20))) = 1
   \<and> epsilon (small_solver (1 / 2) (1 / 20)) = 1 / 20
   \<and> value_iteration_loop (small_solver (1 / 2) (1 / 20)) =
       Some (Inr ((small_solver (1 / 2) (1 / 20))
                    \<lparr>utilities := (zero_utilities small_env)(0 \<mapsto> - (1 / 25), 1 \<mapsto> 1, 2 \<mapsto> - (1 / 25))\<rparr>))
   \<and> bellman_backup_spec small_env (1 / 2)
        ((zero_utilities small_env)(0 \<mapsto> - (1 / 25), 1 \<mapsto> 1, 2 \<mapsto> - (1 / 25))) 0 = 1 / 5"
proof (intro conjI)
  show "value_iteration_sweep (small_solver (1 / 2) (1 / 20)) =
     Inr ((zero_utilities small_env)(0 \<mapsto> - (1 / 25), 1 \<mapsto> 1, 2 \<mapsto> - (1 / 25)), 1 / 25)"
    by (rule small_first_sweep)
  show "max_abs_difference_spec (set (env_states small_env))
        ((zero_utilities small_env)(0 \<mapsto> - (1 / 25), 1 \<mapsto> 1, 2 \<mapsto> - (1 / 25)))
        (utilities (small_solver (1 / 2) (1 / 20))) = 1"
    by (simp add: max_abs_difference_spec_def small_solver_def small_env_simps
        zero_utilities_def utility_of_def)
  show "epsilon (small_solver (1 / 2) (1 / 20)) = 1 / 20"
    by (simp add: small_solver_def)
  show "value_iteration_loop (small_solver (1 / 2) (1 / 20)) =
       Some (Inr ((small_solver (1 / 2) (1 / 20))
                    \<lparr>utilities := (zero_utilities small_env)(0 \<mapsto> - (1 / 25), 1 \<mapsto> 1, 2 \<mapsto> - (1 / 25))\<rparr>))"
    by (rule small_loop_one_sweep)
  show "bellman_backup_spec small_env (1 / 2)
        ((zero_utilities small_env)(0 \<mapsto> - (1 / 25), 1 \<mapsto> 1, 2 \<mapsto> - (1 / 25))) 0 = 1 / 5"
    by (simp add: bellman_backup_spec_def action_value_spec_def weighted_sum_spec_def
        small_env_simps utility_of_def)
qed

section \<open>Value Iteration in exact arithmetic\<close>

text \<open>
  The lemmas of this section are about the loop over exact reals. There the backup
  contracts the distance between two tables by the factor \<open>gamma\<close>, so on a model that keeps
  the contract of the data model the loop returns for every \<open>0 \<le> gamma < 1\<close> and every
  \<open>epsilon > 0\<close>. They are used to show that concrete runs of the model return a result.
  They say nothing about the exit of the loop over doubles: there rounding can hold
  \<^verbatim>\<open>delta\<close> at the size of one unit in the last place of the utilities, and a threshold
  below that is never met.
\<close>

subsection \<open>Sweeps of a proper model succeed\<close>

lemma proper_transitions_readable:
  assumes "proper_transitions e ts" and "set (env_states e) \<subseteq> dom U"
  shows "list_all (readable U) ts"
proof -
  have "readable U t" if "t \<in> set ts" for t
  proof -
    obtain prob next_state where t: "t = (prob, next_state)" by (cases t)
    from assms(1) that t
    have "(case prob of PyFloat p \<Rightarrow> 0 \<le> p | PyState s \<Rightarrow> False)
        \<and> (case next_state of PyState s' \<Rightarrow> s' \<in> set (env_states e) | PyFloat x \<Rightarrow> False)"
      by (auto simp: proper_transitions_def list_all_iff)
    then obtain p s' where "prob = PyFloat p" "next_state = PyState s'" "s' \<in> set (env_states e)"
      by (cases prob; cases next_state) auto
    with assms(2) t show ?thesis by auto
  qed
  then show ?thesis by (simp add: list_all_iff)
qed

lemma q_values_loop_succeeds:
  assumes "\<forall>a \<in> set as. \<exists>ts. env_transitions e s a = Inr ts \<and> list_all (readable U) ts"
  shows "\<exists>qs. q_values_loop e s U q as = Inr qs"
  using assms
proof (induction as arbitrary: q)
  case Nil
  then show ?case by simp
next
  case (Cons a as)
  from Cons.prems obtain ts where ts: "env_transitions e s a = Inr ts" "list_all (readable U) ts"
    by auto
  from Cons.prems have "\<forall>a \<in> set as. \<exists>ts. env_transitions e s a = Inr ts \<and> list_all (readable U) ts"
    by simp
  from Cons.IH [OF this] show ?case
    by (simp add: ts expected_utility_readable)
qed

lemma get_q_values_succeeds:
  assumes "proper_model (env self)" and "set (env_states (env self)) \<subseteq> dom U"
    and "s \<in> set (env_states (env self))" and "s \<notin> env_terminal_states (env self)"
  shows "\<exists>qs. get_q_values self s U = Inr qs"
proof -
  have "\<exists>ts. env_transitions (env self) s a = Inr ts \<and> list_all (readable U) ts"
    if "a \<in> set (env_actions (env self) s)" for a
  proof -
    from assms(1,3,4) that
    have "case env_transitions (env self) s a of Inl err \<Rightarrow> False 
          | Inr ts \<Rightarrow> proper_transitions (env self) ts"
      unfolding proper_model_def by blast
    then obtain ts where "env_transitions (env self) s a = Inr ts" "proper_transitions (env self) ts"
      by (cases "env_transitions (env self) s a") auto
    with proper_transitions_readable [OF _ assms(2)] show ?thesis by blast
  qed
  then show ?thesis
    unfolding get_q_values_def by (intro q_values_loop_succeeds) blast
qed

lemma value_iteration_states_succeeds:
  assumes "proper_model (env self)" and "set (env_states (env self)) \<subseteq> dom (utilities self)"
    and "set xs \<subseteq> set (env_states (env self))"
  shows "\<exists>r. value_iteration_states self (nu, d) xs = Inr r"
  using assms(3)
proof (induction xs arbitrary: nu d)
  case Nil
  then show ?case by simp
next
  case (Cons x xs)
  from Cons.prems have x: "x \<in> set (env_states (env self))"
    and xs: "set xs \<subseteq> set (env_states (env self))"
    by simp_all
  show ?case
  proof (cases "x \<in> env_terminal_states (env self)")
    case True
    with Cons.IH [OF xs] show ?thesis by simp
  next
    case False
    from get_q_values_succeeds [OF assms(1,2) x False]
    obtain qs where qs: "get_q_values self x (utilities self) = Inr qs" ..
    from x assms(2) obtain old where old: "utilities self x = Some old" by auto
    from Cons.IH [OF xs] show ?thesis
      by (simp add: False qs old Let_def)
  qed
qed

lemma value_iteration_sweep_proper:
  assumes "proper_model (env self)" and "set (env_states (env self)) \<subseteq> dom (utilities self)"
  shows "\<exists>delta. value_iteration_sweep self =
            Inr (bellman_sweep_spec (env self) (gamma self) (utilities self), delta)"
proof -
  from value_iteration_states_succeeds [OF assms subset_refl]
  obtain U' delta where r: "value_iteration_sweep self = Inr (U', delta)"
    unfolding value_iteration_sweep_def by (metis surj_pair)
  from value_iteration_sweep_Inr(1) [OF r]
  have "U' = bellman_sweep_spec (env self) (gamma self) (utilities self)"
    by (simp add: bellman_sweep_spec_def)
  with r show ?thesis by blast
qed

lemma dom_bellman_sweep_spec: "set (env_states e) \<subseteq> dom (bellman_sweep_spec e g U)"
  by (auto simp: bellman_sweep_spec_def)

lemma dom_zero_utilities: "dom (zero_utilities e) = set (env_states e)"
  by (auto simp: zero_utilities_def dom_map_of_conv_image_fst image_iff)

subsection \<open>The backup is a contraction\<close>

lemma Max_image_diff:
  fixes f h :: "'a \<Rightarrow> real"
  assumes "finite A" and "A \<noteq> {}" and "\<forall>a \<in> A. \<bar>f a - h a\<bar> \<le> b"
  shows "\<bar>Max (f ` A) - Max (h ` A)\<bar> \<le> b"
proof -
  have fin: "finite (f ` A)" "finite (h ` A)" "f ` A \<noteq> {}" "h ` A \<noteq> {}"
    using assms(1,2) by simp_all
  have "Max (f ` A) \<le> Max (h ` A) + b"
  proof -
    have "f a \<le> Max (h ` A) + b" if "a \<in> A" for a
    proof -
      from assms(3) that have "\<bar>f a - h a\<bar> \<le> b" by blast
      then have "f a \<le> h a + b" by linarith
      moreover have "h a \<le> Max (h ` A)" using that fin by simp
      ultimately show ?thesis by simp
    qed
    then show ?thesis using fin by (simp add: Max_le_iff)
  qed
  moreover have "Max (h ` A) \<le> Max (f ` A) + b"
  proof -
    have "h a \<le> Max (f ` A) + b" if "a \<in> A" for a
    proof -
      from assms(3) that have "\<bar>f a - h a\<bar> \<le> b" by blast
      then have "h a \<le> f a + b" by linarith
      moreover have "f a \<le> Max (f ` A)" using that fin by simp
      ultimately show ?thesis by simp
    qed
    then show ?thesis using fin by (simp add: Max_le_iff)
  qed
  ultimately show ?thesis by (simp add: abs_le_iff)
qed

lemma weighted_sum_diff:
  assumes "list_all (\<lambda>(prob, next_state).
                  (case prob of PyFloat p \<Rightarrow> 0 \<le> p | PyState s \<Rightarrow> False) \<and>
                  (case next_state of PyState s' \<Rightarrow> s' \<in> set (env_states e) | PyFloat x \<Rightarrow> False)) ts"
    and "\<forall>s \<in> set (env_states e). \<bar>utility_of U s - utility_of V s\<bar> \<le> b"
  shows "\<bar>weighted_sum_spec U ts - weighted_sum_spec V ts\<bar>
           \<le> sum_list (map (\<lambda>(prob, next_state). prob_of prob) ts) * b"
  using assms(1)
proof (induction ts)
  case Nil
  then show ?case by (simp add: weighted_sum_spec_def)
next
  case (Cons t ts)
  obtain prob next_state where t: "t = (prob, next_state)" by (cases t)
  from Cons.prems t obtain p s' where f: "prob = PyFloat p" "next_state = PyState s'"
    "0 \<le> p" "s' \<in> set (env_states e)"
    by (cases prob; cases next_state) auto
  let ?w = "sum_list (map (\<lambda>(prob, next_state). prob_of prob) ts)"
  from Cons.prems have "\<bar>weighted_sum_spec U ts - weighted_sum_spec V ts\<bar> \<le> ?w * b"
    by (intro Cons.IH) simp
  moreover from assms(2) f have "\<bar>utility_of U s' - utility_of V s'\<bar> \<le> b" by blast
  then have "\<bar>p * utility_of U s' - p * utility_of V s'\<bar> \<le> p * b"
    using f(3) by (metis abs_mult abs_of_nonneg mult_left_mono right_diff_distrib)
  moreover have "weighted_sum_spec U (t # ts) - weighted_sum_spec V (t # ts)
      = (p * utility_of U s' - p * utility_of V s')
        + (weighted_sum_spec U ts - weighted_sum_spec V ts)"
    by (simp add: weighted_sum_spec_def t f)
  ultimately have "\<bar>weighted_sum_spec U (t # ts) - weighted_sum_spec V (t # ts)\<bar> \<le> p * b + ?w * b"
    by linarith
  then show ?case by (simp add: t f distrib_right)
qed

lemma action_value_diff:
  assumes "proper_model e" and "s \<in> set (env_states e)" and "s \<notin> env_terminal_states e"
    and "a \<in> set (env_actions e s)"
    and "\<forall>s \<in> set (env_states e). \<bar>utility_of U s - utility_of V s\<bar> \<le> b"
  shows "\<bar>action_value_spec e U s a - action_value_spec e V s a\<bar> \<le> b"
proof -
  from assms(1-4)
  have "case env_transitions e s a of Inl err \<Rightarrow> False | Inr ts \<Rightarrow> proper_transitions e ts"
    unfolding proper_model_def by blast
  then obtain ts where ts: "env_transitions e s a = Inr ts" "proper_transitions e ts"
    by (cases "env_transitions e s a") auto
  from ts(2) weighted_sum_diff [of e ts U V b] assms(5)
  have "\<bar>weighted_sum_spec U ts - weighted_sum_spec V ts\<bar> \<le> 1 * b"
    unfolding proper_transitions_def by metis
  then show ?thesis by (simp add: action_value_spec_def ts(1))
qed

lemma bellman_backup_contraction:
  assumes "proper_model e" and "0 \<le> g" and "s \<in> set (env_states e)"
    and "\<forall>s \<in> set (env_states e). \<bar>utility_of U s - utility_of V s\<bar> \<le> b"
  shows "\<bar>bellman_backup_spec e g U s - bellman_backup_spec e g V s\<bar> \<le> g * b"
proof -
  from assms(3,4) have "\<bar>utility_of U s - utility_of V s\<bar> \<le> b" by blast
  then have b: "0 \<le> b" by linarith
  then have gb: "0 \<le> g * b" using assms(2) by simp
  show ?thesis
  proof (cases "s \<in> env_terminal_states e \<or> env_actions e s = []")
    case True
    then show ?thesis using gb by (auto simp: bellman_backup_spec_def)
  next
    case False
    let ?A = "set (env_actions e s)"
    have "\<forall>a \<in> ?A. \<bar>action_value_spec e U s a - action_value_spec e V s a\<bar> \<le> b"
      using action_value_diff [OF assms(1,3) _ _ assms(4)] False by blast
    with Max_image_diff [of ?A "action_value_spec e U s" "action_value_spec e V s" b] False
    have "\<bar>Max (action_value_spec e U s ` ?A) - Max (action_value_spec e V s ` ?A)\<bar> \<le> b"
      by simp
    then have "\<bar>g * Max (action_value_spec e U s ` ?A) - g * Max (action_value_spec e V s ` ?A)\<bar> \<le> g * b"
      using assms(2) by (metis abs_mult abs_of_nonneg mult_left_mono right_diff_distrib)
    with False show ?thesis by (simp add: bellman_backup_spec_def)
  qed
qed

subsection \<open>The loop of Value Iteration returns\<close>

lemma utility_of_bellman_sweep_spec:
  "s \<in> set (env_states e) \<Longrightarrow> utility_of (bellman_sweep_spec e g U) s = bellman_backup_spec e g U s"
  by (simp add: utility_of_def bellman_sweep_spec_def)

lemma iterate_step_bound:
  assumes "proper_model e" and "0 \<le> g"
    and "\<forall>s \<in> set (env_states e). \<bar>utility_of (bellman_sweep_spec e g U) s - utility_of U s\<bar> \<le> b"
  shows "\<forall>s \<in> set (env_states e).
           \<bar>utility_of ((bellman_sweep_spec e g ^^ Suc n) U) s
            - utility_of ((bellman_sweep_spec e g ^^ n) U) s\<bar> \<le> g ^ n * b"
proof (induction n)
  case 0
  from assms(3) show ?case by simp
next
  case (Suc n)
  show ?case
  proof
    fix s assume s: "s \<in> set (env_states e)"
    let ?V = "(bellman_sweep_spec e g ^^ n) U"
    let ?W = "(bellman_sweep_spec e g ^^ Suc n) U"
    from bellman_backup_contraction [OF assms(1,2) s Suc.IH]
    have "\<bar>bellman_backup_spec e g ?W s - bellman_backup_spec e g ?V s\<bar> \<le> g * (g ^ n * b)" .
    moreover have "utility_of ((bellman_sweep_spec e g ^^ Suc (Suc n)) U) s = bellman_backup_spec e g ?W s"
      using s by (simp add: utility_of_bellman_sweep_spec)
    moreover have "utility_of ?W s = bellman_backup_spec e g ?V s"
      using s by (simp add: utility_of_bellman_sweep_spec)
    ultimately show "\<bar>utility_of ((bellman_sweep_spec e g ^^ Suc (Suc n)) U) s - utility_of ?W s\<bar>
                      \<le> g ^ Suc n * b"
      by (simp add: mult.assoc)
  qed
qed

lemma sweep_delta_bound:
  assumes "value_iteration_sweep self = Inr (U', delta)" and "0 \<le> c"
    and "\<forall>s \<in> set (env_states (env self)).
           \<bar>utility_of (bellman_sweep_spec (env self) (gamma self) (utilities self)) s
            - utility_of (utilities self) s\<bar> \<le> c"
  shows "delta \<le> c"
proof -
  let ?f = "\<lambda>s. \<bar>bellman_backup_spec (env self) (gamma self) (utilities self) s
                  - utility_of (utilities self) s\<bar>"
  let ?N = "{s \<in> set (env_states (env self)). s \<notin> env_terminal_states (env self)}"
  have "\<forall>s \<in> ?N. ?f s \<le> c"
    using assms(3) by (simp add: utility_of_bellman_sweep_spec)
  then have "Max (insert 0 (?f ` ?N)) \<le> c"
    using assms(2) by (subst Max_le_iff) auto
  with value_iteration_sweep_Inr(2) [OF assms(1)] show ?thesis by simp
qed

lemma dom_funpow_bellman_sweep_spec:
  "set (env_states e) \<subseteq> dom U \<Longrightarrow> set (env_states e) \<subseteq> dom ((bellman_sweep_spec e g ^^ n) U)"
  by (cases n) (simp_all add: dom_bellman_sweep_spec)

lemma value_iteration_loop_returns_after:
  assumes "proper_model (env self)" and "set (env_states (env self)) \<subseteq> dom (utilities self)"
    and "value_iteration_sweep
           (self\<lparr>utilities := (bellman_sweep_spec (env self) (gamma self) ^^ n) (utilities self)\<rparr>)
         = Inr (U', d)"
    and "d < epsilon self"
  shows "\<exists>self'. value_iteration_loop self = Some (Inr self') \<and> env self' = env self
               \<and> set (env_states (env self)) \<subseteq> dom (utilities self')"
  using assms
proof (induction n arbitrary: self)
  case 0
  from "0.prems"(3) have sw: "value_iteration_sweep self = Inr (U', d)" by simp
  have "set (env_states (env self)) \<subseteq> dom U'"
    unfolding value_iteration_sweep_Inr(1) [OF sw] by auto
  with sw "0.prems"(4) show ?case
    by (subst value_iteration_loop.simps) simp
next
  case (Suc n)
  let ?B = "bellman_sweep_spec (env self) (gamma self)"
  from value_iteration_sweep_proper [OF Suc.prems(1,2)]
  obtain d1 where sw: "value_iteration_sweep self = Inr (?B (utilities self), d1)" ..
  show ?case
  proof (cases "d1 < epsilon self")
    case True
    with sw show ?thesis
      by (subst value_iteration_loop.simps) (simp add: dom_bellman_sweep_spec)
  next
    case False
    let ?self1 = "self\<lparr>utilities := ?B (utilities self)\<rparr>"
    have l: "value_iteration_loop self = value_iteration_loop ?self1"
      using sw False by (subst value_iteration_loop.simps) simp
    have "\<exists>self'. value_iteration_loop ?self1 = Some (Inr self') \<and> env self' = env ?self1
               \<and> set (env_states (env ?self1)) \<subseteq> dom (utilities self')"
    proof (rule Suc.IH)
      show "proper_model (env ?self1)" using Suc.prems(1) by simp
      show "set (env_states (env ?self1)) \<subseteq> dom (utilities ?self1)"
        by (simp add: dom_bellman_sweep_spec)
      show "value_iteration_sweep
              (?self1\<lparr>utilities := (bellman_sweep_spec (env ?self1) (gamma ?self1) ^^ n) (utilities ?self1)\<rparr>)
            = Inr (U', d)"
        using Suc.prems(3) by (simp add: funpow_swap1)
      show "d < epsilon ?self1" using Suc.prems(4) by simp
    qed
    with l show ?thesis by simp
  qed
qed

lemma value_iteration_loop_returns:
  assumes "proper_model (env self)" and "set (env_states (env self)) \<subseteq> dom (utilities self)"
    and "0 \<le> gamma self" and "gamma self < 1" and "0 < epsilon self"
  shows "\<exists>self'. value_iteration_loop self = Some (Inr self') \<and> env self' = env self
               \<and> set (env_states (env self)) \<subseteq> dom (utilities self')"
proof -
  let ?e = "env self" and ?g = "gamma self" and ?U = "utilities self"
  let ?B = "bellman_sweep_spec ?e ?g"
  let ?D = "(\<lambda>s. \<bar>utility_of (?B ?U) s - utility_of ?U s\<bar>) ` set (env_states ?e)"
  define b where "b = Max (insert 0 ?D)"
  have b0: "0 \<le> b" unfolding b_def by simp
  have bd: "\<forall>s \<in> set (env_states ?e). \<bar>utility_of (?B ?U) s - utility_of ?U s\<bar> \<le> b"
    unfolding b_def by (simp add: Max_ge_iff)
  obtain n where n: "?g ^ n * b < epsilon self"
  proof (cases "b = 0")
    case True
    with assms(5) have "?g ^ 0 * b < epsilon self" by simp
    then show ?thesis by (rule that)
  next
    case False
    with b0 assms(5) have "0 < epsilon self / b" by simp
    from real_arch_pow_inv [OF this assms(4)] obtain n where "?g ^ n < epsilon self / b" ..
    with b0 False have "?g ^ n * b < epsilon self" by (simp add: pos_less_divide_eq)
    then show ?thesis by (rule that)
  qed
  let ?W = "(?B ^^ n) ?U"
  let ?selfn = "self\<lparr>utilities := ?W\<rparr>"
  have "set (env_states (env ?selfn)) \<subseteq> dom (utilities ?selfn)"
    using dom_funpow_bellman_sweep_spec [OF assms(2)] by simp
  moreover have "proper_model (env ?selfn)" using assms(1) by simp
  ultimately obtain d where sw: "value_iteration_sweep ?selfn = Inr (?B ?W, d)"
    using value_iteration_sweep_proper [of ?selfn] by auto
  have "d \<le> ?g ^ n * b"
  proof (rule sweep_delta_bound [OF sw])
    show "0 \<le> ?g ^ n * b" using b0 assms(3) by simp
    show "\<forall>s \<in> set (env_states (env ?selfn)).
           \<bar>utility_of (bellman_sweep_spec (env ?selfn) (gamma ?selfn) (utilities ?selfn)) s
            - utility_of (utilities ?selfn) s\<bar> \<le> ?g ^ n * b"
      using iterate_step_bound [OF assms(1,3) bd, of n] by simp
  qed
  with n have "d < epsilon self" by simp
  from value_iteration_loop_returns_after [OF assms(1,2) sw this] show ?thesis .
qed

subsection \<open>Policy extraction and the whole of Value Iteration\<close>

lemma extract_policy_loop_succeeds:
  assumes "proper_model (env self)" and "set (env_states (env self)) \<subseteq> dom U"
    and "set xs \<subseteq> set (env_states (env self))"
  shows "\<exists>policy'. extract_policy_loop self U policy xs = Inr policy'"
  using assms(3)
proof (induction xs arbitrary: policy)
  case Nil
  then show ?case by simp
next
  case (Cons x xs)
  from Cons.prems have x: "x \<in> set (env_states (env self))"
    and xs: "set xs \<subseteq> set (env_states (env self))"
    by simp_all
  show ?case
  proof (cases "x \<in> env_terminal_states (env self)")
    case True
    with Cons.IH [OF xs] show ?thesis by simp
  next
    case False
    from get_q_values_succeeds [OF assms(1,2) x False]
    obtain qs where "get_q_values self x U = Inr qs" ..
    with Cons.IH [OF xs] False show ?thesis by simp
  qed
qed

lemma solve_value_iteration_returns:
  assumes "proper_model (env self)" and "set (env_states (env self)) \<subseteq> dom (utilities self)"
    and "0 \<le> gamma self" and "gamma self < 1" and "0 < epsilon self"
  shows "\<exists>U policy. solve_value_iteration self = Some (Inr (U, policy))"
proof -
  from value_iteration_loop_returns [OF assms]
  obtain self' where l: "value_iteration_loop self = Some (Inr self')"
    and e: "env self' = env self"
    and d: "set (env_states (env self)) \<subseteq> dom (utilities self')"
    by blast
  from extract_policy_loop_succeeds [of self' "utilities self'" "env_states (env self')" Map.empty]
    assms(1) e d
  obtain policy where "extract_policy self' (utilities self') = Inr policy"
    unfolding extract_policy_def by auto
  with l show ?thesis by (simp add: solve_value_iteration_def)
qed

lemma proper_small_env: "proper_model small_env"
  by (simp add: proper_model_def proper_transitions_def small_env_simps)

lemma gridworld_env_documented_simps:
  "env_states (gridworld_env_documented g) = get_states g"
  "env_terminal_states (gridworld_env_documented g) = terminal_states g"
  "env_actions (gridworld_env_documented g) = get_actions g"
  "env_reward (gridworld_env_documented g) = get_reward g"
  "env_transitions (gridworld_env_documented g) state action =
     (case get_transitions g state action of
        Inl e \<Rightarrow> Inl e
      | Inr ts \<Rightarrow> Inr (map (\<lambda>(s_prime, prob). (PyFloat prob, PyState s_prime)) ts))"
  by (simp_all add: gridworld_env_documented_def gridworld_env_def)

lemma proper_gridworld_env_documented: "proper_model (gridworld_env_documented Gridworld)"
  unfolding proper_model_def
proof (intro ballI impI)
  fix s a
  assume "s \<in> set (env_states (gridworld_env_documented Gridworld))"
    and "s \<notin> env_terminal_states (gridworld_env_documented Gridworld)"
    and "a \<in> set (env_actions (gridworld_env_documented Gridworld) s)"
  then have "s \<in> set (get_states Gridworld)" "s \<notin> terminal_states Gridworld"
    "a \<in> set (get_actions Gridworld s)"
    by (simp_all add: gridworld_env_documented_simps)
  from get_transitions_sound [OF this] obtain ts
    where g: "get_transitions Gridworld s a = Inr ts"
      and m: "\<forall>sp \<in> set ts. fst sp \<in> set (get_states Gridworld) \<and> 0 < snd sp"
      and u: "sum_list (map snd ts) = 1"
    by blast
  let ?f = "\<lambda>(s_prime, prob). (PyFloat prob, PyState s_prime)"
  have "sum_list (map (\<lambda>(prob, next_state). prob_of prob) (map ?f ts)) = sum_list (map snd ts)"
    by (induction ts) (simp_all add: case_prod_beta)
  with u have "sum_list (map (\<lambda>(prob, next_state). prob_of prob) (map ?f ts)) = 1" by simp
  moreover have "list_all (\<lambda>(prob, next_state).
                  (case prob of PyFloat p \<Rightarrow> 0 \<le> p | PyState s \<Rightarrow> False) \<and>
                  (case next_state of PyState s' \<Rightarrow> s' \<in> set (env_states (gridworld_env_documented Gridworld))
                                    | PyFloat x \<Rightarrow> False)) (map ?f ts)"
    using m by (auto simp: list_all_iff gridworld_env_documented_simps less_imp_le)
  ultimately have "proper_transitions (gridworld_env_documented Gridworld) (map ?f ts)"
    by (simp add: proper_transitions_def)
  then show "case env_transitions (gridworld_env_documented Gridworld) s a of
               Inl err \<Rightarrow> False
             | Inr ts \<Rightarrow> proper_transitions (gridworld_env_documented Gridworld) ts"
    by (simp add: gridworld_env_documented_simps g)
qed

subsection \<open>What a returned table holds\<close>

lemma value_iteration_loop_result_aux:
  assumes "value_iteration_loop self = Some r"
  shows "\<forall>self'. r = Inr self' \<longrightarrow>
              env self' = env self \<and> gamma self' = gamma self
              \<and> (\<exists>S delta. env S = env self \<and> gamma S = gamma self
                    \<and> value_iteration_sweep S = Inr (utilities self', delta))"
  using assms
proof (induction rule: value_iteration_loop.raw_induct [rotated 1, consumes 1])
  case (1 f self r)
  note IH = "1"(1) and eq = "1"(2)
  show ?case
  proof (intro allI impI)
    fix self' assume r: "r = Inr self'"
    from eq r obtain nu d where sw: "value_iteration_sweep self = Inr (nu, d)"
      by (cases "value_iteration_sweep self") auto
    show "env self' = env self \<and> gamma self' = gamma self
        \<and> (\<exists>S delta. env S = env self \<and> gamma S = gamma self
                  \<and> value_iteration_sweep S = Inr (utilities self', delta))"
    proof (cases "d < epsilon self")
      case True
      with eq r sw have "self' = self\<lparr>utilities := nu\<rparr>" by simp
      with sw show ?thesis by auto
    next
      case False
      with eq sw have "f (self\<lparr>utilities := nu\<rparr>) = Some r" by simp
      from IH [OF this] r show ?thesis by simp
    qed
  qed
qed

lemma value_iteration_loop_result:
  assumes "value_iteration_loop self = Some (Inr self')"
  shows "env self' = env self \<and> gamma self' = gamma self
       \<and> (\<exists>S delta. env S = env self \<and> gamma S = gamma self
                    \<and> value_iteration_sweep S = Inr (utilities self', delta))"
  using value_iteration_loop_result_aux [OF assms] by simp

lemma solve_value_iteration_result:
  assumes "solve_value_iteration self = Some (Inr (U, policy))"
  shows "\<exists>S delta self'. env S = env self \<and> gamma S = gamma self
           \<and> value_iteration_sweep S = Inr (U, delta)
           \<and> env self' = env self \<and> extract_policy self' U = Inr policy"
proof -
  from assms obtain self' where l: "value_iteration_loop self = Some (Inr self')"
    and x: "extract_policy self' (utilities self') = Inr policy" and u: "U = utilities self'"
    by (auto simp: solve_value_iteration_def split: option.splits sum.splits)
  from value_iteration_loop_result [OF l] x u show ?thesis by blast
qed

section \<open>Terminal states and states without actions\<close>

lemma get_q_values_no_actions:
  "env_actions (env self) s = [] \<Longrightarrow> get_q_values self s U = Inr []"
  by (simp add: get_q_values_def)

lemma bellman_backup_spec_reward:
  "s \<in> env_terminal_states e \<or> env_actions e s = [] \<Longrightarrow> bellman_backup_spec e g U s = env_reward e s"
  by (auto simp: bellman_backup_spec_def)

lemma extract_policy_loop_no_choice:
  assumes "extract_policy_loop self U policy xs = Inr policy'"
    and "s \<in> env_terminal_states (env self) \<or> env_actions (env self) s = []"
  shows "policy' s = (if s \<in> set xs then Some None else policy s)"
  using assms(1)
proof (induction xs arbitrary: policy)
  case Nil
  then show ?case by simp
next
  case (Cons x xs)
  show ?case
  proof (cases "x \<in> env_terminal_states (env self)")
    case True
    with Cons.prems have "extract_policy_loop self U (policy(x \<mapsto> None)) xs = Inr policy'"
      by simp
    from Cons.IH [OF this] show ?thesis by simp
  next
    case False
    with Cons.prems obtain q where q: "get_q_values self x U = Inr q"
      and l: "extract_policy_loop self U (policy(x \<mapsto> best_action_of q)) xs = Inr policy'"
      by (cases "get_q_values self x U") auto
    have "best_action_of q = None" if "x = s"
      using that q False assms(2) by (simp add: get_q_values_no_actions best_action_of_def)
    with Cons.IH [OF l] show ?thesis by auto
  qed
qed

lemma solve_value_iteration_no_choice:
  assumes "solve_value_iteration self = Some (Inr (U, policy))"
    and "s \<in> set (env_states (env self))"
    and "s \<in> env_terminal_states (env self) \<or> env_actions (env self) s = []"
  shows "U s = Some (env_reward (env self) s)" and "policy s = Some None"
proof -
  from solve_value_iteration_result [OF assms(1)]
  obtain S delta self' where S: "env S = env self" "gamma S = gamma self"
    and sw: "value_iteration_sweep S = Inr (U, delta)"
    and x: "env self' = env self" "extract_policy self' U = Inr policy"
    by blast
  from value_iteration_sweep_Inr(1) [OF sw] assms(2,3) S
  show "U s = Some (env_reward (env self) s)"
    by (simp add: bellman_backup_spec_reward)
  from x assms(2,3)
  show "policy s = Some None"
    using extract_policy_loop_no_choice [of self' U Map.empty "env_states (env self')" policy s]
    by (simp add: extract_policy_def)
qed

text \<open>
  C4. For every terminal state of a grid, \<open>get_actions\<close> returns the empty list and
  \<open>get_transitions\<close> returns the empty list for any action; and whenever
  \<^verbatim>\<open>solve_value_iteration\<close> returns a utility table, the table maps every terminal state of the
  model it was run on exactly to the reward of that state.
\<close>

theorem terminal_absorption:
  "(t \<in> terminal_states grid \<longrightarrow>
      get_actions grid t = [] \<and> get_transitions grid t a = Inr [])
   \<and> (solve_value_iteration self = Some (Inr (U, policy))
        \<and> u \<in> env_terminal_states (env self) \<and> u \<in> set (env_states (env self))
      \<longrightarrow> U u = Some (env_reward (env self) u))"
  using solve_value_iteration_no_choice(1) [of self U policy u]
  by (simp add: get_actions_def get_transitions_def)

theorem terminal_absorption_witness:
  "(0, 3) \<in> terminal_states Gridworld
   \<and> get_actions Gridworld (0, 3) = [] \<and> get_transitions Gridworld (0, 3) ''North'' = Inr []
   \<and> (\<exists>U policy.
         solve_value_iteration
           \<lparr>env = gridworld_env_documented Gridworld, gamma = DEFAULT_GAMMA,
             epsilon = DEFAULT_EPSILON,
             utilities = zero_utilities (gridworld_env_documented Gridworld)\<rparr>
         = Some (Inr (U, policy))
         \<and> (0, 3) \<in> env_terminal_states (gridworld_env_documented Gridworld)
         \<and> (0, 3) \<in> set (env_states (gridworld_env_documented Gridworld))
         \<and> U (0, 3) = Some 1)"
proof -
  let ?S = "\<lparr>env = gridworld_env_documented Gridworld, gamma = DEFAULT_GAMMA,
             epsilon = DEFAULT_EPSILON,
             utilities = zero_utilities (gridworld_env_documented Gridworld)\<rparr>"
  have "\<exists>U policy. solve_value_iteration ?S = Some (Inr (U, policy))"
    by (rule solve_value_iteration_returns)
      (simp_all add: proper_gridworld_env_documented dom_zero_utilities
        DEFAULT_GAMMA_def DEFAULT_EPSILON_def)
  then obtain U policy where r: "solve_value_iteration ?S = Some (Inr (U, policy))" by blast
  have m: "(0, 3) \<in> env_terminal_states (env ?S)" "(0, 3) \<in> set (env_states (env ?S))"
    by (simp_all add: gridworld_env_documented_simps goal_terminal gridworld_states)
  have w: "env_reward (env ?S) (0, 3) = 1"
    by (simp add: gridworld_env_documented_simps get_reward_def GOAL_STATE_def REWARD_GOAL_def)
  from terminal_absorption [of "(0, 3)" Gridworld "''North''" ?S U policy "(0, 3)"] goal_terminal r m
  have "get_actions Gridworld (0, 3) = []" "get_transitions Gridworld (0, 3) ''North'' = Inr []"
    "U (0, 3) = Some (env_reward (env ?S) (0, 3))"
    by blast+
  with goal_terminal r m w show ?thesis by auto
qed

subsection \<open>Policy Iteration at a state without a choice\<close>

lemma initial_policy_loop_no_choice:
  assumes "s \<in> env_terminal_states (env self) \<or> env_actions (env self) s = []"
  shows "initial_policy_loop self rnd policy xs s = (if s \<in> set xs then Some None else policy s)"
proof (induction xs arbitrary: policy)
  case Nil
  then show ?case by simp
next
  case (Cons x xs)
  then show ?case using assms by (auto simp: Let_def)
qed

lemma policy_evaluation_states_no_choice:
  assumes "policy_evaluation_states self policy eu (nu, d) xs = Inr (nu', d')"
    and "s \<in> env_terminal_states (env self) \<or> policy_get policy s = None"
  shows "nu' s = (if s \<in> set xs then Some (env_reward (env self) s) else nu s)"
  using assms(1)
proof (induction xs arbitrary: nu d)
  case Nil
  then show ?case by simp
next
  case (Cons x xs)
  show ?case
  proof (cases "x \<in> env_terminal_states (env self) \<or> policy_get policy x = None")
    case True
    with Cons.prems
    have "policy_evaluation_states self policy eu (nu(x \<mapsto> env_reward (env self) x), d) xs = Inr (nu', d')"
      by (cases "x \<in> env_terminal_states (env self)") simp_all
    from Cons.IH [OF this] show ?thesis by simp
  next
    case False
    then obtain action where a: "policy_get policy x = Some action" by auto
    from False assms(2) have ne: "x \<noteq> s" by auto
    from Cons.prems False a obtain ts where ts: "env_transitions (env self) x action = Inr ts"
      by (cases "env_transitions (env self) x action") auto
    from Cons.prems False a ts obtain v where v: "expected_utility eu 0 ts = Inr v"
      by (cases "expected_utility eu 0 ts") auto
    from Cons.prems False a ts v obtain old where old: "eu x = Some old"
      by (cases "eu x") (auto simp: Let_def)
    from Cons.prems False a ts v old obtain w c where
      "policy_evaluation_states self policy eu (nu(x \<mapsto> w), c) xs = Inr (nu', d')"
      by (auto simp: Let_def)
    from Cons.IH [OF this] ne show ?thesis by simp
  qed
qed

lemma policy_evaluation_loop_result_aux:
  assumes "policy_evaluation_loop self policy eu = Some r"
  shows "\<forall>U. r = Inr U \<longrightarrow>
           (\<exists>eu' delta. policy_evaluation_states self policy eu' (eu', 0) (env_states (env self))
                          = Inr (U, delta))"
  using assms
proof (induction rule: policy_evaluation_loop.raw_induct [rotated 1, consumes 1])
  case (1 f self policy eu r)
  note IH = "1"(1) and eq = "1"(2)
  show ?case
  proof (intro allI impI)
    fix U assume r: "r = Inr U"
    from eq r obtain nu d
      where sw: "policy_evaluation_states self policy eu (eu, 0) (env_states (env self)) = Inr (nu, d)"
      by (cases "policy_evaluation_states self policy eu (eu, 0) (env_states (env self))") auto
    show "\<exists>eu' delta. policy_evaluation_states self policy eu' (eu', 0) (env_states (env self))
                          = Inr (U, delta)"
    proof (cases "d < epsilon self")
      case True
      with eq r sw have "U = nu" by simp
      with sw show ?thesis by blast
    next
      case False
      with eq sw have "f self policy nu = Some r" by simp
      from IH [OF this] r show ?thesis by simp
    qed
  qed
qed

lemma policy_evaluation_no_choice:
  assumes "policy_evaluation self policy = Some (Inr U)"
    and "s \<in> set (env_states (env self))"
    and "s \<in> env_terminal_states (env self) \<or> policy_get policy s = None"
  shows "U s = Some (env_reward (env self) s)"
proof -
  from policy_evaluation_loop_result_aux [OF assms(1) [unfolded policy_evaluation_def]]
  obtain eu' delta
    where "policy_evaluation_states self policy eu' (eu', 0) (env_states (env self)) = Inr (U, delta)"
    by blast
  from policy_evaluation_states_no_choice [OF this assms(3)] assms(2) show ?thesis by simp
qed

lemma policy_improvement_states_no_choice:
  assumes "policy_improvement_states self policy (np, st) xs = Inr (np', st')"
    and "s \<in> env_terminal_states (env self) \<or> env_actions (env self) s = []"
  shows "np' s = (if s \<in> set xs then Some None else np s)"
  using assms(1)
proof (induction xs arbitrary: np st)
  case Nil
  then show ?case by simp
next
  case (Cons x xs)
  show ?case
  proof (cases "x \<in> env_terminal_states (env self)")
    case True
    with Cons.prems
    have "policy_improvement_states self policy (np(x \<mapsto> None), st) xs = Inr (np', st')"
      by simp
    from Cons.IH [OF this] show ?thesis by simp
  next
    case False
    with Cons.prems obtain q where q: "get_q_values self x (utilities self) = Inr q"
      by (cases "get_q_values self x (utilities self)") auto
    have b: "best_action_of q = None" if "x = s"
      using that q False assms(2) by (simp add: get_q_values_no_actions best_action_of_def)
    from Cons.prems False q obtain c
      where "policy_improvement_states self policy (np(x \<mapsto> best_action_of q), c) xs = Inr (np', st')"
      by (cases "best_action_of q") auto
    from Cons.IH [OF this] b show ?thesis by auto
  qed
qed

lemma policy_iteration_loop_no_choice_aux:
  assumes "policy_iteration_loop self policy = Some r"
  shows "s \<in> set (env_states (env self)) \<longrightarrow>
         (s \<in> env_terminal_states (env self) \<or> env_actions (env self) s = []) \<longrightarrow>
         policy_get policy s = None \<longrightarrow>
         (\<forall>U policy'. r = Inr (U, policy') \<longrightarrow>
            U s = Some (env_reward (env self) s) \<and> policy' s = Some None)"
  using assms
proof (induction rule: policy_iteration_loop.raw_induct [rotated 1, consumes 1])
  case (1 f self policy r)
  note IH = "1"(1) and eq = "1"(2)
  show ?case
  proof (intro allI impI)
    fix U policy'
    assume s: "s \<in> set (env_states (env self))"
      and nc: "s \<in> env_terminal_states (env self) \<or> env_actions (env self) s = []"
      and pg: "policy_get policy s = None"
      and r: "r = Inr (U, policy')"
    from eq r obtain V where ev: "policy_evaluation self policy = Some (Inr V)"
      by (auto split: option.splits sum.splits)
    let ?self1 = "self\<lparr>utilities := V\<rparr>"
    from eq r ev obtain np st
      where im: "policy_improvement_states ?self1 policy (Map.empty, True) (env_states (env self))
                   = Inr (np, st)"
      by (auto split: sum.splits)
    from policy_improvement_states_no_choice [OF im] nc s
    have np: "np s = Some None" by simp
    show "U s = Some (env_reward (env self) s) \<and> policy' s = Some None"
    proof (cases st)
      case True
      with eq r ev im have "U = V" "policy' = np" by simp_all
      moreover from policy_evaluation_no_choice [OF ev s] pg
      have "V s = Some (env_reward (env self) s)" by simp
      ultimately show ?thesis using np by simp
    next
      case False
      with eq ev im have "f ?self1 np = Some r" by simp
      from IH [OF this] s nc np r show ?thesis by (simp add: policy_get_def)
    qed
  qed
qed

lemma solve_policy_iteration_no_choice:
  assumes "solve_policy_iteration self rnd = Some (Inr (U, policy))"
    and "s \<in> set (env_states (env self))"
    and "s \<in> env_terminal_states (env self) \<or> env_actions (env self) s = []"
  shows "U s = Some (env_reward (env self) s) \<and> policy s = Some None"
proof -
  have "policy_get (initial_policy_loop self rnd Map.empty (env_states (env self))) s = None"
    by (simp add: policy_get_def initial_policy_loop_no_choice [OF assms(3)] assms(2))
  with policy_iteration_loop_no_choice_aux [OF assms(1) [unfolded solve_policy_iteration_def], of s]
    assms(2,3)
  show ?thesis by blast
qed

lemma small_policy_evaluation_sweep:
  "policy_evaluation_states (small_solver g eps) [0 \<mapsto> Some ''go'', 1 \<mapsto> None, 2 \<mapsto> None]
     (zero_utilities small_env) (zero_utilities small_env, 0) (env_states small_env)
   = Inr ((zero_utilities small_env)(0 \<mapsto> - (1 / 25), 1 \<mapsto> 1, 2 \<mapsto> - (1 / 25)), 1 / 25)"
  by (simp add: small_solver_def small_env_simps zero_utilities_def policy_get_def
      utilities_item_def py_mul_def Let_def)

lemma small_policy_evaluation:
  "policy_evaluation (small_solver g (1 / 10)) [0 \<mapsto> Some ''go'', 1 \<mapsto> None, 2 \<mapsto> None]
   = Some (Inr ((zero_utilities small_env)(0 \<mapsto> - (1 / 25), 1 \<mapsto> 1, 2 \<mapsto> - (1 / 25))))"
proof -
  have e: "env (small_solver g (1 / 10)) = small_env" "epsilon (small_solver g (1 / 10)) = 1 / 10"
    by (simp_all add: small_solver_def)
  show ?thesis
    unfolding policy_evaluation_def
    by (subst policy_evaluation_loop.simps)
      (simp add: e small_policy_evaluation_sweep)
qed

lemma small_policy_improvement:
  "policy_improvement_states
     ((small_solver g eps)\<lparr>utilities := (zero_utilities small_env)(0 \<mapsto> - (1 / 25), 1 \<mapsto> 1, 2 \<mapsto> - (1 / 25))\<rparr>)
     [0 \<mapsto> Some ''go'', 1 \<mapsto> None, 2 \<mapsto> None] (Map.empty, True) (env_states small_env)
   = Inr ([0 \<mapsto> Some ''go'', 1 \<mapsto> None, 2 \<mapsto> None], True)"
  by (simp add: small_solver_def small_env_simps get_q_values_def utilities_item_def py_mul_def
      best_action_of_def policy_get_def)

lemma small_initial_policy:
  "initial_policy_loop (small_solver g eps) (\<lambda>s. 0) Map.empty (env_states small_env)
   = [0 \<mapsto> Some ''go'', 1 \<mapsto> None, 2 \<mapsto> None]"
  by (simp add: small_solver_def small_env_simps random_choice_def)

lemma small_policy_iteration:
  "solve_policy_iteration (small_solver g (1 / 10)) (\<lambda>s. 0)
   = Some (Inr ((zero_utilities small_env)(0 \<mapsto> - (1 / 25), 1 \<mapsto> 1, 2 \<mapsto> - (1 / 25)),
                [0 \<mapsto> Some ''go'', 1 \<mapsto> None, 2 \<mapsto> None]))"
proof -
  have e: "env (small_solver g (1 / 10)) = small_env"
    by (simp add: small_solver_def)
  show ?thesis
    unfolding solve_policy_iteration_def e small_initial_policy
    by (subst policy_iteration_loop.simps)
      (simp add: small_policy_evaluation e small_policy_improvement)
qed

text \<open>
  C8. A state of the model that is not terminal and has no legal action is a defined case
  for both solvers: its action values are the empty dictionary, not an error; in every
  result of Value Iteration and in every result of Policy Iteration its utility is its
  reward alone and its policy entry is \<^verbatim>\<open>None\<close>.
\<close>

theorem state_without_actions:
  assumes "s \<in> set (env_states (env self))" and "s \<notin> env_terminal_states (env self)"
    and "env_actions (env self) s = []"
  shows "get_q_values self s U0 = Inr []
       \<and> (solve_value_iteration self = Some (Inr (U, policy))
            \<longrightarrow> U s = Some (env_reward (env self) s) \<and> policy s = Some None)
       \<and> (solve_policy_iteration self rnd = Some (Inr (U', policy'))
            \<longrightarrow> U' s = Some (env_reward (env self) s) \<and> policy' s = Some None)"
  using assms get_q_values_no_actions [of self s U0]
    solve_value_iteration_no_choice [of self U policy s]
    solve_policy_iteration_no_choice [of self rnd U' policy' s]
  by blast

theorem state_without_actions_witness:
  "2 \<in> set (env_states small_env) \<and> 2 \<notin> env_terminal_states small_env \<and> env_actions small_env 2 = []
   \<and> (\<exists>U policy. solve_value_iteration (small_solver (1 / 2) (1 / 10)) = Some (Inr (U, policy))
         \<and> U 2 = Some (- (1 / 25)) \<and> policy 2 = Some None)
   \<and> (\<exists>U' policy'. solve_policy_iteration (small_solver (1 / 2) (1 / 10)) (\<lambda>s. 0) = Some (Inr (U', policy'))
         \<and> U' 2 = Some (- (1 / 25)) \<and> policy' 2 = Some None)"
proof -
  let ?S = "small_solver (1 / 2) (1 / 10)"
  have e: "env ?S = small_env" by (simp add: small_solver_def)
  have h1: "2 \<in> set (env_states (env ?S))" and h2: "2 \<notin> env_terminal_states (env ?S)"
    and h3: "env_actions (env ?S) 2 = []"
    by (simp_all add: e small_env_simps)
  have "\<exists>U policy. solve_value_iteration ?S = Some (Inr (U, policy))"
    by (rule solve_value_iteration_returns)
      (simp_all add: small_solver_def proper_small_env dom_zero_utilities)
  then obtain U policy where v: "solve_value_iteration ?S = Some (Inr (U, policy))" by blast
  obtain U' policy' where p: "solve_policy_iteration ?S (\<lambda>s. 0) = Some (Inr (U', policy'))"
    using small_policy_iteration by blast
  from state_without_actions [OF h1 h2 h3, of _ U policy "\<lambda>s. 0" U' policy'] v p
  have "U 2 = Some (env_reward (env ?S) 2) \<and> policy 2 = Some None"
    and "U' 2 = Some (env_reward (env ?S) 2) \<and> policy' 2 = Some None"
    by blast+
  with v p h1 h2 h3 show ?thesis
    unfolding e by (auto simp: small_env_simps)
qed

end
